theory Spec2Isabelle
  imports Main "HOL-Library.Sublist"
begin

section \<open>JavaScript strings and regular expressions\<close>

text \<open>
  A JavaScript string is a sequence of UTF-16 code units. Every character the program
  names (Latin letters, digits, the Greek block, \<open>U+0127\<close>, \<open>U+2202\<close>, \<open>U+2207\<close>,
  \<open>U+00D7\<close>) is one code unit, and the regular expressions of the program carry no
  \<open>u\<close> flag, so they match code unit by code unit. A code unit is modelled by its number.
\<close>

type_synonym cu = nat
type_synonym jsstring = "cu list"

text \<open>The code units of an ASCII text.\<close>

definition asc :: "string \<Rightarrow> jsstring" where
  "asc t = map of_char t"

text \<open>\<open>String.prototype.includes\<close>: the argument occurs as a contiguous substring.\<close>

definition includes_js :: "jsstring \<Rightarrow> jsstring \<Rightarrow> bool" where
  "includes_js s t = sublist t s"

subsection \<open>Character predicates\<close>

definition upper_latin :: "cu \<Rightarrow> bool" where
  "upper_latin c = (65 \<le> c \<and> c \<le> 90)"

definition lower_latin :: "cu \<Rightarrow> bool" where
  "lower_latin c = (97 \<le> c \<and> c \<le> 122)"

definition digit :: "cu \<Rightarrow> bool" where
  "digit c = (48 \<le> c \<and> c \<le> 57)"

text \<open>The word characters of \<open>\b\<close>: \<open>[A-Za-z0-9_]\<close>, also under the \<open>i\<close> flag.\<close>

definition word_char :: "cu \<Rightarrow> bool" where
  "word_char c = (upper_latin c \<or> lower_latin c \<or> digit c \<or> c = 95)"

text \<open>\<open>\s\<close>: the WhiteSpace and LineTerminator code units of ECMAScript.\<close>

definition white_space :: "cu \<Rightarrow> bool" where
  "white_space c = (c \<in> {9, 10, 11, 12, 13, 32, 160, 5760, 8232, 8233, 8239, 8287, 12288, 65279}
                     \<or> (8192 \<le> c \<and> c \<le> 8202))"

text \<open>\<open>.\<close> matches every code unit but the four line terminators.\<close>

definition line_terminator :: "cu \<Rightarrow> bool" where
  "line_terminator c = (c \<in> {10, 13, 8232, 8233})"

text \<open>
  \<open>Canonicalize\<close> of ECMAScript for a regular expression with the \<open>i\<close> flag and without
  the \<open>u\<close> flag: the code unit is upper-cased by the Unicode default case conversion,
  unless the result is more than one code unit, or is ASCII while the code unit is not.
  The patterns that carry the \<open>i\<close> flag in this program consist of Latin letters and of
  the 24 lower-case Greek letters, so only the code units whose upper-case form is a
  Latin or a Greek capital are ever compared; the function is written out on these
  (Unicode 14: the Latin and Greek small letters, final sigma \<open>U+03C2\<close>, the micro sign
  \<open>U+00B5\<close>, the symbol forms \<open>U+03D0\<close>, \<open>U+03D1\<close>, \<open>U+03D5\<close>, \<open>U+03D6\<close>, \<open>U+03F0\<close>,
  \<open>U+03F1\<close>, \<open>U+03F5\<close>, and the iota subscripts \<open>U+0345\<close>, \<open>U+1FBE\<close>) and leaves every
  other code unit as it is.
\<close>

definition canonicalize :: "cu \<Rightarrow> cu" where
  "canonicalize c =
     (if lower_latin c then c - 32
      else if c = 962 then 931
      else if 945 \<le> c \<and> c \<le> 969 then c - 32
      else if c = 181 then 924
      else if c = 976 then 914
      else if c = 977 then 920
      else if c = 981 then 934
      else if c = 982 then 928
      else if c = 1008 then 922
      else if c = 1009 then 929
      else if c = 1013 then 917
      else if c = 837 \<or> c = 8126 then 921
      else c)"

fun in_ranges :: "(cu \<times> cu) list \<Rightarrow> cu \<Rightarrow> bool" where
  "in_ranges [] c = False"
| "in_ranges ((lo, hi) # rs) c = ((lo \<le> c \<and> c \<le> hi) \<or> in_ranges rs c)"

subsection \<open>Patterns\<close>

datatype regex =
    Eps
  | Lit cu
  | Cls "(cu \<times> cu) list"
  | Dot
  | Space
  | WordB
  | Seq regex regex
  | Alt regex regex
  | Star regex
  | Plus regex
  | Opt regex
  | Group nat regex

text \<open>A literal text as a pattern.\<close>

fun str :: "jsstring \<Rightarrow> regex" where
  "str [] = Eps"
| "str [c] = Lit c"
| "str (c # cs) = Seq (Lit c) (str cs)"

text \<open>A sequence of patterns.\<close>

fun seqs :: "regex list \<Rightarrow> regex" where
  "seqs [] = Eps"
| "seqs [r] = r"
| "seqs (r # rs) = Seq r (seqs rs)"

subsection \<open>The backtracking matcher\<close>

text \<open>
  A matcher state is the code unit before the current position (for \<open>\b\<close>), the text
  from the current position on, and the captures made so far (latest first). The
  matcher of a pattern maps a state to the states it can end in, in the order in which
  the backtracking search of ECMAScript tries them; the match that the search finds is
  the head of this list.
\<close>

type_synonym captures = "(nat \<times> jsstring) list"
type_synonym mstate = "cu option \<times> jsstring \<times> captures"

fun step_char :: "(cu \<Rightarrow> bool) \<Rightarrow> mstate \<Rightarrow> mstate list" where
  "step_char P (p, [], cs) = []"
| "step_char P (p, c # r, cs) = (if P c then [(Some c, r, cs)] else [])"

fun is_word :: "cu option \<Rightarrow> bool" where
  "is_word None = False"
| "is_word (Some c) = word_char c"

fun at_boundary :: "mstate \<Rightarrow> bool" where
  "at_boundary (p, [], cs) = is_word p"
| "at_boundary (p, c # r, cs) = (is_word p \<noteq> word_char c)"

fun text_of :: "mstate \<Rightarrow> jsstring" where
  "text_of (p, r, cs) = r"

fun caps_of :: "mstate \<Rightarrow> captures" where
  "caps_of (p, r, cs) = cs"

fun remaining :: "mstate \<Rightarrow> nat" where
  "remaining (p, r, cs) = length r"

text \<open>
  Greedy repetition: one more iteration first, then stopping here. An iteration that
  consumes nothing is rejected, as \<open>RepeatMatcher\<close> does (also for \<open>?\<close>). Every
  iteration consumes a code unit, so the number of code units left bounds the number
  of iterations.
\<close>

fun iter :: "(mstate \<Rightarrow> mstate list) \<Rightarrow> nat \<Rightarrow> mstate \<Rightarrow> mstate list" where
  "iter f 0 st = [st]"
| "iter f (Suc n) st =
     concat (map (iter f n) (filter (\<lambda>st'. remaining st' < remaining st) (f st))) @ [st]"

fun capture :: "nat \<Rightarrow> mstate \<Rightarrow> mstate \<Rightarrow> mstate" where
  "capture n (p, r, cs) (p', r', cs') = (p', r', (n, take (length r - length r') r) # cs')"

primrec ms :: "regex \<Rightarrow> bool \<Rightarrow> mstate \<Rightarrow> mstate list" where
  "ms Eps = (\<lambda>ic st. [st])"
| "ms (Lit c) = (\<lambda>ic. step_char (\<lambda>x. if ic then canonicalize x = canonicalize c else x = c))"
| "ms (Cls rs) = (\<lambda>ic. step_char (\<lambda>x. if ic then (\<exists>(lo, hi) \<in> set rs. \<exists>m \<in> {lo..hi}. canonicalize x = canonicalize m)
                                        else in_ranges rs x))"
| "ms Dot = (\<lambda>ic. step_char (\<lambda>x. \<not> line_terminator x))"
| "ms Space = (\<lambda>ic. step_char white_space)"
| "ms WordB = (\<lambda>ic st. if at_boundary st then [st] else [])"
| "ms (Seq a b) = (\<lambda>ic st. concat (map (ms b ic) (ms a ic st)))"
| "ms (Alt a b) = (\<lambda>ic st. ms a ic st @ ms b ic st)"
| "ms (Star a) = (\<lambda>ic st. iter (ms a ic) (remaining st) st)"
| "ms (Plus a) = (\<lambda>ic st. concat (map (\<lambda>st'. iter (ms a ic) (remaining st') st') (ms a ic st)))"
| "ms (Opt a) = (\<lambda>ic st. filter (\<lambda>st'. remaining st' < remaining st) (ms a ic st) @ [st])"
| "ms (Group n a) = (\<lambda>ic st. map (capture n st) (ms a ic st))"

text \<open>The match the search finds at one position, if any.\<close>

definition match_at :: "bool \<Rightarrow> regex \<Rightarrow> cu option \<Rightarrow> jsstring \<Rightarrow> mstate option" where
  "match_at ic r p s = (case ms r ic (p, s, []) of [] \<Rightarrow> None | st # _ \<Rightarrow> Some st)"

subsection \<open>\<open>RegExp.prototype.test\<close> and \<open>String.prototype.replace\<close>\<close>

text \<open>
  \<open>test\<close> on a fresh regular expression: is there a match starting at some position,
  the end of the text included.
\<close>

fun test_from :: "bool \<Rightarrow> regex \<Rightarrow> cu option \<Rightarrow> jsstring \<Rightarrow> bool" where
  "test_from ic r p [] = (match_at ic r p [] \<noteq> None)"
| "test_from ic r p (c # s) = (match_at ic r p (c # s) \<noteq> None \<or> test_from ic r (Some c) s)"

definition test :: "bool \<Rightarrow> regex \<Rightarrow> jsstring \<Rightarrow> bool" where
  "test ic r s = test_from ic r None s"

text \<open>A replacement text: literal pieces and group references \<open>$n\<close>.\<close>

datatype piece = Txt jsstring | Ref nat

text \<open>The code units a replacement text writes by itself.\<close>

fun piece_chars :: "piece \<Rightarrow> cu set" where
  "piece_chars (Txt t) = set t"
| "piece_chars (Ref n) = {}"

fun expand :: "piece list \<Rightarrow> captures \<Rightarrow> jsstring" where
  "expand [] cs = []"
| "expand (Txt t # ps) cs = t @ expand ps cs"
| "expand (Ref n # ps) cs = (case map_of cs n of None \<Rightarrow> [] | Some t \<Rightarrow> t) @ expand ps cs"

text \<open>
  \<open>replace\<close> with a global pattern: scanning from the left, the first position with a
  match is replaced by the expanded replacement text and the scan goes on behind the
  match; a position without a match keeps its code unit. After an empty match the scan
  advances by one code unit. A match ends in a suffix of the text it starts on (lemma
  \<open>match_at_suffix\<close> below), so a match that does not leave a shorter text is an
  empty match.
\<close>

function replace_from :: "bool \<Rightarrow> regex \<Rightarrow> piece list \<Rightarrow> cu option \<Rightarrow> jsstring \<Rightarrow> jsstring" where
  "replace_from ic r t p s =
     (case match_at ic r p s of
        None \<Rightarrow> (case s of [] \<Rightarrow> [] | c # s' \<Rightarrow> c # replace_from ic r t (Some c) s')
      | Some (p', s', cs) \<Rightarrow>
          expand t cs @
          (if length s' < length s then replace_from ic r t p' s'
           else (case s of [] \<Rightarrow> [] | c # s'' \<Rightarrow> c # replace_from ic r t (Some c) s'')))"
  by pat_completeness auto
termination
  by (relation "measure (\<lambda>(ic, r, t, p, s). length s)") auto

declare replace_from.simps [simp del]

definition replace :: "bool \<Rightarrow> regex \<Rightarrow> piece list \<Rightarrow> jsstring \<Rightarrow> jsstring" where
  "replace ic r t s = replace_from ic r t None s"

section \<open>The text rewriter\<close>

text \<open>The character classes of the first three passes.\<close>

definition letter_cls :: regex where
  "letter_cls = Cls [(65, 90), (97, 122)]"

definition alnum_cls :: regex where
  "alnum_cls = Cls [(65, 90), (97, 122), (48, 57)]"

text \<open>\<open>/([A-Za-z])_([A-Za-z0-9]+)/g\<close> with replacement \<open>$1_{$2}\<close>.\<close>

definition subscript_rx :: regex where
  "subscript_rx = seqs [Group 1 letter_cls, Lit 95, Group 2 (Plus alnum_cls)]"

definition subscript_to :: "piece list" where
  "subscript_to = [Ref 1, Txt (asc ''_{''), Ref 2, Txt (asc ''}'')]"

text \<open>\<open>/([A-Za-z0-9])(\^)([A-Za-z0-9]+)/g\<close> with replacement \<open>$1^{$3}\<close>.\<close>

definition superscript_rx :: regex where
  "superscript_rx = seqs [Group 1 alnum_cls, Group 2 (Lit 94), Group 3 (Plus alnum_cls)]"

definition superscript_to :: "piece list" where
  "superscript_to = [Ref 1, Txt (asc ''^{''), Ref 3, Txt (asc ''}'')]"

text \<open>\<open>/([A-Za-z0-9]+)\/([A-Za-z0-9]+)/g\<close> with replacement \<open>\frac{$1}{$2}\<close>.\<close>

definition fraction_rx :: regex where
  "fraction_rx = seqs [Group 1 (Plus alnum_cls), Lit 47, Group 2 (Plus alnum_cls)]"

definition fraction_to :: "piece list" where
  "fraction_to = [Txt (92 # asc ''frac{''), Ref 1, Txt (asc ''}{''), Ref 2, Txt (asc ''}'')]"

text \<open>
  The Greek-letter table, in insertion order: the name and the code unit of the glyph
  (\<open>U+03B1\<close> to \<open>U+03C9\<close>, without the final sigma \<open>U+03C2\<close>).
\<close>

definition greekLetters :: "(string \<times> cu) list" where
  "greekLetters =
     [(''alpha'', 945), (''beta'', 946), (''gamma'', 947), (''delta'', 948), (''epsilon'', 949),
      (''zeta'', 950), (''eta'', 951), (''theta'', 952), (''iota'', 953), (''kappa'', 954),
      (''lambda'', 955), (''mu'', 956), (''nu'', 957), (''xi'', 958), (''omicron'', 959),
      (''pi'', 960), (''rho'', 961), (''sigma'', 963), (''tau'', 964), (''upsilon'', 965),
      (''phi'', 966), (''chi'', 967), (''psi'', 968), (''omega'', 969)]"

text \<open>\<open>new RegExp(`\\b${name}\\b|${symbol}`, 'gi')\<close> and the replacement \<open>`\\${name}`\<close>.\<close>

definition greek_rx :: "string \<Rightarrow> cu \<Rightarrow> regex" where
  "greek_rx name symbol = Alt (seqs [WordB, str (asc name), WordB]) (Lit symbol)"

definition greek_step :: "jsstring \<Rightarrow> string \<times> cu \<Rightarrow> jsstring" where
  "greek_step processed e =
     (case e of (name, symbol) \<Rightarrow> replace True (greek_rx name symbol) [Txt (92 # asc name)] processed)"

definition greek_pass :: "jsstring \<Rightarrow> jsstring" where
  "greek_pass processed = foldl greek_step processed greekLetters"

text \<open>
  The code units the equation blocks name: \<open>G\<close> 71, \<open>T\<close> 84, \<open>E\<close> 69, \<open>B\<close> 66,
  \<open>c\<close> 99, \<open>g\<close> 103, \<open>i\<close> 105, \<open>t\<close> 116, \<open>_\<close> 95, \<open>^\<close> 94, \<open>{\<close> 123, \<open>}\<close> 125,
  \<open>/\<close> 47, \<open>.\<close> 46, \<open>2\<close> 50, \<open>4\<close> 52, \<open>8\<close> 56, \<open>\\<close> 92,
  mu \<open>U+03BC\<close> 956, nu \<open>U+03BD\<close> 957, pi \<open>U+03C0\<close> 960, capital lambda \<open>U+039B\<close> 923,
  capital psi \<open>U+03A8\<close> 936, h with stroke \<open>U+0127\<close> 295, partial \<open>U+2202\<close> 8706,
  nabla \<open>U+2207\<close> 8711, multiplication sign \<open>U+00D7\<close> 215.
\<close>

definition munu :: jsstring where
  "munu = [956, 957]"

text \<open>The tail \<open>\s*_?{?\<mu>\<nu>}?\<close> shared by three patterns of the Einstein block.\<close>

definition index_tail :: "regex list" where
  "index_tail = [Star Space, Opt (Lit 95), Opt (Lit 123), str munu, Opt (Lit 125)]"

definition einstein_guard :: "jsstring \<Rightarrow> bool" where
  "einstein_guard processed =
     (includes_js processed [71] \<and> includes_js processed munu \<and> includes_js processed [923])"

definition einstein_block :: "jsstring \<Rightarrow> jsstring" where
  "einstein_block processed =
     (if einstein_guard processed then
        let processed = replace False (seqs (Lit 71 # index_tail))
                          [Txt (asc ''G_{'' @ 92 # asc ''mu'' @ 92 # asc ''nu}'')] processed;
            processed = replace False (seqs (Lit 923 # Lit 103 # index_tail))
                          [Txt (92 # asc ''Lambda g_{'' @ 92 # asc ''mu'' @ 92 # asc ''nu}'')] processed;
            processed = replace False (seqs (Lit 84 # index_tail))
                          [Txt (asc ''T_{'' @ 92 # asc ''mu'' @ 92 # asc ''nu}'')] processed;
            processed = replace False (seqs [Lit 99, Star Space, Opt (Lit 94), Opt (Lit 123), Lit 52, Opt (Lit 125)])
                          [Txt (asc ''c^{4}'')] processed;
            processed = replace False (str [56, 960, 71])
                          [Txt (asc ''8'' @ 92 # asc ''pi G'')] processed
        in processed
      else processed)"

definition schrodinger_guard :: "jsstring \<Rightarrow> bool" where
  "schrodinger_guard processed = (includes_js processed [936] \<and> includes_js processed [295])"

definition schrodinger_block :: "jsstring \<Rightarrow> jsstring" where
  "schrodinger_block processed =
     (if schrodinger_guard processed then
        let processed = replace False (str [105, 295]) [Txt (asc ''i'' @ 92 # asc ''hbar'')] processed;
            processed = replace False (str [8706, 936, 47, 8706, 116])
                          [Txt (92 # asc ''frac{'' @ 92 # asc ''partial'' @ 92 # asc ''Psi}{''
                                @ 92 # asc ''partial t}'')] processed;
            processed = replace False (str [8711, 94, 50]) [Txt (92 # asc ''nabla^{2}'')] processed
        in processed
      else processed)"

text \<open>The patterns \<open>\<nabla>\s*\.\s*X\<close> and \<open>\<nabla>\s*\<times>\s*X\<close> of the Maxwell block.\<close>

definition nabla_rx :: "cu \<Rightarrow> cu \<Rightarrow> regex" where
  "nabla_rx oper field = seqs [Lit 8711, Star Space, Lit oper, Star Space, Lit field]"

definition vec_to :: "string \<Rightarrow> string \<Rightarrow> piece list" where
  "vec_to oper field = [Txt (92 # asc ''nabla '' @ 92 # asc oper @ asc '' '' @ 92 # asc ''vec{'' @ asc field @ asc ''}'')]"

definition maxwell_guard :: "jsstring \<Rightarrow> bool" where
  "maxwell_guard processed =
     (includes_js processed [8711] \<and> (includes_js processed [69] \<or> includes_js processed [66]))"

definition maxwell_rewrites :: "jsstring \<Rightarrow> jsstring" where
  "maxwell_rewrites processed =
     (let processed = replace False (nabla_rx 46 69) (vec_to ''cdot'' ''E'') processed;
          processed = replace False (nabla_rx 46 66) (vec_to ''cdot'' ''B'') processed;
          processed = replace False (nabla_rx 215 69) (vec_to ''times'' ''E'') processed;
          processed = replace False (nabla_rx 215 66) (vec_to ''times'' ''B'') processed
      in processed)"

definition maxwell_block :: "jsstring \<Rightarrow> jsstring" where
  "maxwell_block processed =
     (if maxwell_guard processed then maxwell_rewrites processed else processed)"

text \<open>The three structural passes and the Greek-letter pass, shared by both rewriters.\<close>

definition structural_passes :: "jsstring \<Rightarrow> jsstring" where
  "structural_passes input =
     (let processed = input;
          processed = replace False subscript_rx subscript_to processed;
          processed = replace False superscript_rx superscript_to processed;
          processed = replace False fraction_rx fraction_to processed
      in processed)"

text \<open>\<open>processToLatex\<close> of \<open>utils/mathProcessor.ts\<close> (\<open>rewriteToLatex\<close> in the specification).\<close>

definition processToLatex :: "jsstring \<Rightarrow> jsstring" where
  "processToLatex input =
     (let processed = structural_passes input;
          processed = greek_pass processed;
          processed = einstein_block processed;
          processed = schrodinger_block processed;
          processed = maxwell_block processed
      in processed)"

text \<open>\<open>processInput\<close> of the application component: the same passes up to the Einstein block.\<close>

definition processInput :: "jsstring \<Rightarrow> jsstring" where
  "processInput input =
     (let processed = structural_passes input;
          processed = greek_pass processed;
          processed = einstein_block processed
      in processed)"

section \<open>The pattern detector\<close>

record patterns =
  hasSubscripts :: bool
  hasSuperscripts :: bool
  hasFractions :: bool
  hasGreekLetters :: bool
  isEinsteinEquation :: bool
  isSchrodingerEquation :: bool
  isMaxwellEquation :: bool

text \<open>\<open>/G.*\<mu>\<nu>.*\<Lambda>.*g.*\<mu>\<nu>.*T.*\<mu>\<nu>/\<close>\<close>

definition einstein_rx :: regex where
  "einstein_rx = seqs [Lit 71, Star Dot, str munu, Star Dot, Lit 923, Star Dot, Lit 103, Star Dot,
                       str munu, Star Dot, Lit 84, Star Dot, str munu]"

text \<open>\<open>/[\<Psi>\<psi>].*[\<hbar>h].*\<nabla>\^2/\<close>\<close>

definition schrodinger_rx :: regex where
  "schrodinger_rx = seqs [Cls [(936, 936), (968, 968)], Star Dot, Cls [(295, 295), (104, 104)], Star Dot,
                          str [8711, 94, 50]]"

text \<open>\<open>/\<nabla>.*[EB].*\<nabla>.*[EB]/\<close>\<close>

definition maxwell_rx :: regex where
  "maxwell_rx = seqs [Lit 8711, Star Dot, Cls [(69, 69), (66, 66)], Star Dot, Lit 8711, Star Dot,
                      Cls [(69, 69), (66, 66)]]"

definition detectPatterns :: "jsstring \<Rightarrow> patterns" where
  "detectPatterns input =
     \<lparr> hasSubscripts = test False subscript_rx input,
       hasSuperscripts = test False superscript_rx input,
       hasFractions = test False fraction_rx input,
       hasGreekLetters = test False (Cls [(945, 969), (913, 937)]) input,
       isEinsteinEquation = test False einstein_rx input,
       isSchrodingerEquation = test False schrodinger_rx input,
       isMaxwellEquation = test False maxwell_rx input \<rparr>"

section \<open>Texts without triggers\<close>

text \<open>
  Containment of a text without regard to case, as a pattern with the \<open>i\<close> flag
  compares code units.
\<close>

definition includes_ci :: "jsstring \<Rightarrow> jsstring \<Rightarrow> bool" where
  "includes_ci s t = sublist (map canonicalize t) (map canonicalize s)"

text \<open>The text contains the name of a Greek letter of the table, in any case.\<close>

definition has_greek_name :: "jsstring \<Rightarrow> bool" where
  "has_greek_name s = (\<exists>(name, symbol) \<in> set greekLetters. includes_ci s (asc name))"

text \<open>
  The text contains a Greek glyph: a code unit that the glyph pattern of some entry of
  the table matches. These are the 24 letters in either case and the code units with
  the same upper-case form: final sigma, the symbol forms of beta, theta, phi, pi,
  kappa, rho and epsilon, the iota subscripts and the micro sign (see
  \<open>canonicalize\<close>).
\<close>

definition has_greek_glyph :: "jsstring \<Rightarrow> bool" where
  "has_greek_glyph s =
     (\<exists>c \<in> set s. \<exists>(name, symbol) \<in> set greekLetters. canonicalize c = canonicalize symbol)"

text \<open>The text triggers one of the three known-equation blocks.\<close>

definition has_trigger :: "jsstring \<Rightarrow> bool" where
  "has_trigger s = (einstein_guard s \<or> schrodinger_guard s \<or> maxwell_guard s)"

section \<open>Occurrences of a Greek letter\<close>

text \<open>
  The text \<open>v\<close> is the text \<open>t\<close> with some of its code units lowered by 32: for a text
  \<open>t\<close> of lower-case Latin letters, as the names of the table are, \<open>v\<close> is \<open>t\<close> with any of
  its letters as capitals.
\<close>

definition case_variant :: "jsstring \<Rightarrow> jsstring \<Rightarrow> bool" where
  "case_variant v t = list_all2 (\<lambda>x c. x = c \<or> x + 32 = c) v t"

text \<open>A code unit that the glyph pattern of some entry of the table matches.\<close>

definition greek_glyph :: "cu \<Rightarrow> bool" where
  "greek_glyph c = (\<exists>(name, symbol) \<in> set greekLetters. canonicalize c = canonicalize symbol)"

text \<open>A code unit that is no word character, no caret and no slash.\<close>

definition delimiter :: "cu \<Rightarrow> bool" where
  "delimiter c = (\<not> word_char c \<and> c \<noteq> 94 \<and> c \<noteq> 47)"

section \<open>Auxiliary notions for the proofs\<close>

text \<open>A result state lies further on in the same text, and its new captures are parts of that text.\<close>

definition extends :: "mstate \<Rightarrow> mstate \<Rightarrow> bool" where
  "extends st st' \<longleftrightarrow>
     suffix (text_of st') (text_of st) \<and>
     (\<forall>(n, t) \<in> set (caps_of st'). (n, t) \<in> set (caps_of st) \<or> set t \<subseteq> set (text_of st))"

text \<open>Skipping a run of code units with \<open>P\<close>, then one code unit \<open>c\<close>: what is left behind it.\<close>

definition skip_then :: "(cu \<Rightarrow> bool) \<Rightarrow> cu \<Rightarrow> jsstring \<Rightarrow> jsstring option" where
  "skip_then P c s = (case dropWhile P s of [] \<Rightarrow> None | x # r \<Rightarrow> if x = c then Some r else None)"

text \<open>
  An occurrence of nabla, white space, the operator, white space, the field at the head
  of a text: what is left behind it.
\<close>

definition nabla_match :: "cu \<Rightarrow> cu \<Rightarrow> jsstring \<Rightarrow> jsstring option" where
  "nabla_match oper field s =
     (case s of [] \<Rightarrow> None
      | x # r \<Rightarrow> if x = 8711 then Option.bind (skip_then white_space oper r) (skip_then white_space field)
                 else None)"

text \<open>Latin letters \<open>[A-Za-z]\<close> and letters or digits \<open>[A-Za-z0-9]\<close>.\<close>

definition latin :: "cu \<Rightarrow> bool" where
  "latin c = (upper_latin c \<or> lower_latin c)"

definition alnum :: "cu \<Rightarrow> bool" where
  "alnum c = (upper_latin c \<or> lower_latin c \<or> digit c)"

text \<open>
  The head of the text is a code unit with \<open>A\<close>, the code unit \<open>b\<close>, and a letter or
  digit; and such a triple stands somewhere in the text.
\<close>

fun tri :: "(cu \<Rightarrow> bool) \<Rightarrow> cu \<Rightarrow> jsstring \<Rightarrow> bool" where
  "tri A b (a # y # x # r) = (A a \<and> y = b \<and> alnum x)"
| "tri A b s = False"

fun has_tri :: "(cu \<Rightarrow> bool) \<Rightarrow> cu \<Rightarrow> jsstring \<Rightarrow> bool" where
  "has_tri A b [] = False"
| "has_tri A b (c # s) = (tri A b (c # s) \<or> has_tri A b s)"

text \<open>A run of letters or digits, a slash, and a letter or digit stand at the head of the text.\<close>

definition frac_head :: "jsstring \<Rightarrow> bool" where
  "frac_head s =
     (takeWhile alnum s \<noteq> [] \<and>
      (case dropWhile alnum s of y # x # r \<Rightarrow> y = 47 \<and> alnum x | _ \<Rightarrow> False))"

text \<open>The pattern can consume the text \<open>s\<close> down to \<open>s'\<close>, whatever stands before.\<close>

abbreviation reaches :: "regex \<Rightarrow> bool \<Rightarrow> jsstring \<Rightarrow> jsstring \<Rightarrow> bool" where
  "reaches r ic s s' \<equiv> (\<forall>p cs. \<exists>p'. (p', s', cs) \<in> set (ms r ic (p, s, cs)))"

text \<open>
  The pattern takes the code unit \<open>x\<close> nowhere, and its word boundaries see \<open>x\<close> as they see
  the end of the text.
\<close>

primrec rejects :: "regex \<Rightarrow> bool \<Rightarrow> cu \<Rightarrow> bool" where
  "rejects Eps ic x = True"
| "rejects (Lit c) ic x = (if ic then canonicalize x \<noteq> canonicalize c else x \<noteq> c)"
| "rejects (Cls rs) ic x =
     (if ic then \<not> (\<exists>(lo, hi) \<in> set rs. \<exists>m \<in> {lo..hi}. canonicalize x = canonicalize m)
      else \<not> in_ranges rs x)"
| "rejects Dot ic x = line_terminator x"
| "rejects Space ic x = (\<not> white_space x)"
| "rejects WordB ic x = (\<not> word_char x)"
| "rejects (Seq a b) ic x = (rejects a ic x \<and> rejects b ic x)"
| "rejects (Alt a b) ic x = (rejects a ic x \<and> rejects b ic x)"
| "rejects (Star a) ic x = rejects a ic x"
| "rejects (Plus a) ic x = rejects a ic x"
| "rejects (Opt a) ic x = rejects a ic x"
| "rejects (Group n a) ic x = rejects a ic x"

text \<open>The matcher state with the text \<open>z\<close> behind its text.\<close>

fun behind :: "jsstring \<Rightarrow> mstate \<Rightarrow> mstate" where
  "behind z (p, r, cs) = (p, r @ z, cs)"

text \<open>
  Two matcher states with the same text and captures, whose code units before the
  current position are both word characters or both not.
\<close>

fun alike :: "mstate \<Rightarrow> mstate \<Rightarrow> bool" where
  "alike (p, r, cs) (q, r', cs') = (is_word p = is_word q \<and> r = r' \<and> cs = cs')"

section \<open>Properties of the matcher and of replacement\<close>

lemma remaining_text: "remaining st = length (text_of st)"
  by (cases st) simp

lemma extends_refl: "extends st st"
  by (auto simp: extends_def)

lemma extends_trans: "extends a b \<Longrightarrow> extends b c \<Longrightarrow> extends a c"
  unfolding extends_def
  by (fastforce dest: set_mono_suffix intro: suffix_order.trans)

lemma step_char_extends: "st' \<in> set (step_char P st) \<Longrightarrow> extends st st'"
  by (cases "(P, st)" rule: step_char.cases) (auto simp: extends_def suffix_Cons split: if_splits)

lemma in_iter_Suc:
  "st' \<in> set (iter f (Suc n) st) \<longleftrightarrow>
     st' = st \<or> (\<exists>st1 \<in> set (f st). remaining st1 < remaining st \<and> st' \<in> set (iter f n st1))"
  by auto

lemma in_ms_Seq:
  "st' \<in> set (ms (Seq a b) ic st) \<longleftrightarrow> (\<exists>st1 \<in> set (ms a ic st). st' \<in> set (ms b ic st1))"
  by auto

lemma in_ms_Alt:
  "st' \<in> set (ms (Alt a b) ic st) \<longleftrightarrow> st' \<in> set (ms a ic st) \<or> st' \<in> set (ms b ic st)"
  by auto

lemma in_ms_Star:
  "st' \<in> set (ms (Star a) ic st) \<longleftrightarrow> st' \<in> set (iter (ms a ic) (remaining st) st)"
  by simp

lemma in_ms_Plus:
  "st' \<in> set (ms (Plus a) ic st) \<longleftrightarrow>
     (\<exists>st1 \<in> set (ms a ic st). st' \<in> set (iter (ms a ic) (remaining st1) st1))"
  by auto

lemma in_ms_Opt:
  "st' \<in> set (ms (Opt a) ic st) \<longleftrightarrow>
     st' = st \<or> (st' \<in> set (ms a ic st) \<and> remaining st' < remaining st)"
  by auto

lemma in_ms_Group:
  "st' \<in> set (ms (Group n a) ic st) \<longleftrightarrow> (\<exists>st1 \<in> set (ms a ic st). st' = capture n st st1)"
  by auto

lemma iter_extends:
  assumes "\<And>st st'. st' \<in> set (f st) \<Longrightarrow> extends st st'"
  shows "st' \<in> set (iter f n st) \<Longrightarrow> extends st st'"
proof (induction n arbitrary: st st')
  case 0
  then show ?case by (simp add: extends_refl)
next
  case (Suc n)
  from Suc.prems show ?case
    unfolding in_iter_Suc using Suc.IH assms extends_refl extends_trans by blast
qed

lemma capture_extends: "extends st st1 \<Longrightarrow> extends st (capture n st st1)"
  by (cases st; cases st1) (auto simp: extends_def dest: in_set_takeD)

lemma ms_extends: "st' \<in> set (ms a ic st) \<Longrightarrow> extends st st'"
proof (induction a arbitrary: st st')
  case (Seq a b)
  from Seq.prems show ?case
    unfolding in_ms_Seq using Seq.IH extends_trans by blast
next
  case (Alt a b)
  from Alt.prems show ?case
    unfolding in_ms_Alt using Alt.IH by blast
next
  case (Star a)
  from Star.prems show ?case
    unfolding in_ms_Star using iter_extends [of "ms a ic"] Star.IH by blast
next
  case (Plus a)
  from Plus.prems show ?case
    unfolding in_ms_Plus using iter_extends [of "ms a ic"] Plus.IH extends_trans by blast
next
  case (Opt a)
  from Opt.prems show ?case
    unfolding in_ms_Opt using Opt.IH extends_refl by blast
next
  case (Group n a)
  from Group.prems show ?case
    unfolding in_ms_Group using Group.IH capture_extends by blast
qed (auto simp: extends_refl step_char_extends split: if_splits)

lemma ms_suffix: "st' \<in> set (ms a ic st) \<Longrightarrow> suffix (text_of st') (text_of st)"
  using ms_extends [of st' a ic st] by (simp add: extends_def)

lemma ms_remaining: "st' \<in> set (ms a ic st) \<Longrightarrow> remaining st' \<le> remaining st"
  by (auto simp: remaining_text dest!: ms_suffix suffix_length_le)


subsection \<open>The match at one position\<close>

lemma match_at_None: "match_at ic r p s = None \<longleftrightarrow> ms r ic (p, s, []) = []"
  by (simp add: match_at_def split: list.splits)

lemma match_at_Some_in: "match_at ic r p s = Some st' \<Longrightarrow> st' \<in> set (ms r ic (p, s, []))"
  by (auto simp: match_at_def split: list.splits)

lemma match_at_suffix: "match_at ic r p s = Some (p', s', cs) \<Longrightarrow> suffix s' s"
  by (drule match_at_Some_in, drule ms_suffix) simp

lemma match_at_caps:
  assumes "match_at ic r p s = Some (p', s', cs)" and "(n, t) \<in> set cs"
  shows "set t \<subseteq> set s"
proof -
  have "extends (p, s, []) (p', s', cs)"
    using assms(1) by (intro ms_extends match_at_Some_in)
  with assms(2) show ?thesis by (auto simp: extends_def)
qed

subsection \<open>What a replacement can write\<close>

lemma expand_chars:
  "set (expand t cs) \<subseteq> \<Union> (piece_chars ` set t) \<union> \<Union> (set ` snd ` set cs)"
proof (induction t cs rule: expand.induct)
  case (3 n ps cs)
  show ?case
  proof (cases "map_of cs n")
    case None
    with 3 show ?thesis by auto
  next
    case (Some u)
    have "set u \<subseteq> \<Union> (set ` snd ` set cs)"
      using map_of_SomeD [OF Some] by force
    with 3 Some show ?thesis by auto
  qed
qed auto

text \<open>One unfolding of the scan, by the outcome of the match at the current position.\<close>

lemma replace_from_Nil_None:
  "match_at ic r p [] = None \<Longrightarrow> replace_from ic r t p [] = []"
  by (subst replace_from.simps) simp

lemma replace_from_Cons_None:
  "match_at ic r p (c # s) = None \<Longrightarrow>
   replace_from ic r t p (c # s) = c # replace_from ic r t (Some c) s"
  by (subst replace_from.simps) simp

lemma replace_from_Some_shorter:
  "match_at ic r p s = Some (p', s', cs) \<Longrightarrow> length s' < length s \<Longrightarrow>
   replace_from ic r t p s = expand t cs @ replace_from ic r t p' s'"
  by (subst replace_from.simps) simp

lemma replace_from_Some_empty_Nil:
  "match_at ic r p [] = Some (p', s', cs) \<Longrightarrow> replace_from ic r t p [] = expand t cs"
  by (subst replace_from.simps) simp

lemma replace_from_Some_empty_Cons:
  "match_at ic r p (c # s) = Some (p', s', cs) \<Longrightarrow> \<not> length s' < length (c # s) \<Longrightarrow>
   replace_from ic r t p (c # s) = expand t cs @ c # replace_from ic r t (Some c) s"
  by (subst replace_from.simps) simp

lemma replace_from_chars:
  "set (replace_from ic r t p s) \<subseteq> set s \<union> \<Union> (piece_chars ` set t)"
proof (induction "length s" arbitrary: s p rule: less_induct)
  case less
  show ?case
  proof (cases "match_at ic r p s")
    case None
    show ?thesis
    proof (cases s)
      case Nil
      with None show ?thesis by (simp add: replace_from_Nil_None)
    next
      case (Cons c s1)
      have "set (replace_from ic r t (Some c) s1) \<subseteq> set s1 \<union> \<Union> (piece_chars ` set t)"
        by (rule less) (simp add: Cons)
      with None Cons show ?thesis
        by (auto simp: replace_from_Cons_None)
    qed
  next
    case (Some st')
    obtain p' s' cs where st': "st' = (p', s', cs)" by (cases st')
    have suf: "set s' \<subseteq> set s"
      using Some st' by (auto dest: match_at_suffix set_mono_suffix)
    have caps: "\<Union> (set ` snd ` set cs) \<subseteq> set s"
      using match_at_caps [OF Some [unfolded st']] by fastforce
    have ex: "set (expand t cs) \<subseteq> set s \<union> \<Union> (piece_chars ` set t)"
      using expand_chars [of t cs] caps by blast
    show ?thesis
    proof (cases "length s' < length s")
      case True
      have "set (replace_from ic r t p' s') \<subseteq> set s' \<union> \<Union> (piece_chars ` set t)"
        by (rule less) (rule True)
      with suf ex show ?thesis
        using Some st' True by (auto simp: replace_from_Some_shorter)
    next
      case False
      show ?thesis
      proof (cases s)
        case Nil
        with Some st' ex show ?thesis by (simp add: replace_from_Some_empty_Nil)
      next
        case (Cons c s1)
        have "set (replace_from ic r t (Some c) s1) \<subseteq> set s1 \<union> \<Union> (piece_chars ` set t)"
          by (rule less) (simp add: Cons)
        with ex show ?thesis
          using Some st' False Cons by (auto simp: replace_from_Some_empty_Cons)
      qed
    qed
  qed
qed

lemma replace_chars: "set (replace ic r t s) \<subseteq> set s \<union> \<Union> (piece_chars ` set t)"
  by (simp add: replace_def replace_from_chars)

text \<open>A pattern without a match anywhere leaves the text as it is.\<close>

lemma replace_from_no_match:
  "(\<And>p' s'. suffix s' s \<Longrightarrow> match_at ic r p' s' = None) \<Longrightarrow> replace_from ic r t p s = s"
proof (induction s arbitrary: p)
  case Nil
  then show ?case by (simp add: replace_from_Nil_None)
next
  case (Cons c s)
  have "match_at ic r p (c # s) = None"
    by (rule Cons.prems) simp
  moreover have "replace_from ic r t (Some c) s = s"
    by (rule Cons.IH) (simp add: Cons.prems suffix_ConsI)
  ultimately show ?case by (simp add: replace_from_Cons_None)
qed

lemma replace_no_match:
  "(\<And>p' s'. suffix s' s \<Longrightarrow> match_at ic r p' s' = None) \<Longrightarrow> replace ic r t s = s"
  by (simp add: replace_def replace_from_no_match)

subsection \<open>The bound of a repetition\<close>

text \<open>
  The bound on the iterations of a repetition is never reached: any bound that is at
  least the number of code units left gives the same result.
\<close>

lemma iter_fuel:
  assumes "\<And>st st'. st' \<in> set (f st) \<Longrightarrow> remaining st' \<le> remaining st"
  shows "remaining st \<le> n \<Longrightarrow> remaining st \<le> m \<Longrightarrow> iter f n st = iter f m st"
proof (induction n arbitrary: m st)
  case 0
  then have "filter (\<lambda>st'. remaining st' < remaining st) (f st) = []" by simp
  then show ?case by (cases m) simp_all
next
  case (Suc n)
  show ?case
  proof (cases m)
    case 0
    with Suc.prems have "filter (\<lambda>st'. remaining st' < remaining st) (f st) = []" by simp
    with 0 show ?thesis by simp
  next
    case (Suc m')
    have "iter f n st' = iter f m' st'"
      if "st' \<in> set (filter (\<lambda>st'. remaining st' < remaining st) (f st))" for st'
      using that Suc.prems Suc by (intro Suc.IH) auto
    then have "map (iter f n) (filter (\<lambda>st'. remaining st' < remaining st) (f st))
        = map (iter f m') (filter (\<lambda>st'. remaining st' < remaining st) (f st))"
      by (intro map_cong refl)
    then show ?thesis unfolding Suc iter.simps by (rule arg_cong2 [where f = "\<lambda>x y. concat x @ y"]) simp
  qed
qed

lemma star_fuel: "remaining st \<le> n \<Longrightarrow> ms (Star a) ic st = iter (ms a ic) n st"
  using iter_fuel [of "ms a ic" st "remaining st" n] ms_remaining [of _ a ic] by simp

section \<open>Evaluation\<close>

text \<open>The rewriters and the blocks without \<open>let\<close>, for evaluation on concrete texts.\<close>

lemma structural_passes_eq:
  "structural_passes s =
     replace False fraction_rx fraction_to
       (replace False superscript_rx superscript_to (replace False subscript_rx subscript_to s))"
  by (simp only: structural_passes_def Let_def)

lemma processToLatex_eq:
  "processToLatex s =
     maxwell_block (schrodinger_block (einstein_block (greek_pass (structural_passes s))))"
  by (simp only: processToLatex_def Let_def)

lemma processInput_eq:
  "processInput s = einstein_block (greek_pass (structural_passes s))"
  by (simp only: processInput_def Let_def)

lemmas einstein_block_eq = einstein_block_def [unfolded Let_def]

lemmas schrodinger_block_eq = schrodinger_block_def [unfolded Let_def]

lemmas maxwell_rewrites_eq = maxwell_rewrites_def [unfolded Let_def]

lemmas char_defs = upper_latin_def lower_latin_def digit_def word_char_def white_space_def
  line_terminator_def canonicalize_def

lemmas rx_defs = letter_cls_def alnum_cls_def subscript_rx_def subscript_to_def superscript_rx_def
  superscript_to_def fraction_rx_def fraction_to_def greek_rx_def munu_def index_tail_def
  nabla_rx_def vec_to_def einstein_rx_def schrodinger_rx_def maxwell_rx_def

lemmas ev = asc_def includes_js_def char_defs rx_defs match_at_def test_def replace_def
  replace_from.simps
  greekLetters_def greek_step_def greek_pass_def
  einstein_guard_def einstein_block_eq schrodinger_guard_def schrodinger_block_eq
  maxwell_guard_def maxwell_rewrites_eq maxwell_block_def structural_passes_eq
  processToLatex_eq processInput_eq detectPatterns_def sublist_Cons_right

section \<open>The Greek-letter pass\<close>

subsection \<open>The Greek-letter pass removes every code unit its glyph pattern matches\<close>

lemma step_char_shorter: "st' \<in> set (step_char P st) \<Longrightarrow> remaining st' < remaining st"
  by (cases "(P, st)" rule: step_char.cases) (auto split: if_splits)

lemma str_consumes: "st' \<in> set (ms (str (c # t)) ic st) \<Longrightarrow> remaining st' < remaining st"
proof (induction t arbitrary: c st)
  case Nil
  then show ?case by (auto dest: step_char_shorter)
next
  case (Cons d t)
  from Cons.prems obtain st1 where "st1 \<in> set (ms (Lit c) ic st)" "st' \<in> set (ms (str (d # t)) ic st1)"
    by auto
  then show ?case
    using Cons.IH [of d st1] by (fastforce dest: step_char_shorter)
qed

lemma asc_Nil [simp]: "asc n = [] \<longleftrightarrow> n = []"
  by (simp add: asc_def)

lemma greek_rx_consumes:
  assumes "name \<noteq> []" and "st' \<in> set (ms (greek_rx name g) True st)"
  shows "remaining st' < remaining st"
proof -
  obtain c t where ct: "asc name = c # t"
    using assms(1) by (cases "asc name") auto
  from assms(2) consider "st' \<in> set (ms (Seq WordB (Seq (str (c # t)) WordB)) True st)"
    | "st' \<in> set (ms (Lit g) True st)"
    by (auto simp: greek_rx_def ct)
  then show ?thesis
  proof cases
    case 1
    then have "st' \<in> set (ms (str (c # t)) True st)"
      by (auto split: if_splits)
    then show ?thesis by (rule str_consumes)
  next
    case 2
    then show ?thesis by (auto dest: step_char_shorter)
  qed
qed

lemma greek_rx_no_match_head:
  assumes "match_at True (greek_rx name g) p (c # s) = None"
  shows "canonicalize c \<noteq> canonicalize g"
  using assms by (auto simp: match_at_None greek_rx_def split: if_splits)

lemma greek_replace_kills:
  assumes "name \<noteq> []" and "\<forall>c \<in> set (92 # asc name). canonicalize c \<noteq> canonicalize g"
  shows "\<forall>c \<in> set (replace_from True (greek_rx name g) [Txt (92 # asc name)] p s).
           canonicalize c \<noteq> canonicalize g"
proof (induction "length s" arbitrary: s p rule: less_induct)
  case less
  let ?r = "greek_rx name g" and ?t = "[Txt (92 # asc name)]"
  show ?case
  proof (cases "match_at True ?r p s")
    case None
    show ?thesis
    proof (cases s)
      case Nil
      with None show ?thesis by (simp add: replace_from_Nil_None)
    next
      case (Cons c s1)
      have "\<forall>c \<in> set (replace_from True ?r ?t (Some c) s1). canonicalize c \<noteq> canonicalize g"
        by (rule less) (simp add: Cons)
      moreover have "canonicalize c \<noteq> canonicalize g"
        using None Cons by (auto dest: greek_rx_no_match_head)
      ultimately show ?thesis
        using None Cons by (simp add: replace_from_Cons_None)
    qed
  next
    case (Some st')
    obtain p' s' cs where st': "st' = (p', s', cs)" by (cases st')
    have "remaining st' < remaining (p, s, [])"
      using Some assms(1) by (intro greek_rx_consumes match_at_Some_in)
    then have shorter: "length s' < length s" by (simp add: st')
    have "\<forall>c \<in> set (replace_from True ?r ?t p' s'). canonicalize c \<noteq> canonicalize g"
      by (rule less) (rule shorter)
    then show ?thesis
      using Some st' shorter assms(2) by (auto simp: replace_from_Some_shorter)
  qed
qed

lemma greek_step_kills:
  assumes "name \<noteq> []" and "\<forall>c \<in> set (92 # asc name). canonicalize c \<noteq> canonicalize g"
  shows "\<forall>c \<in> set (greek_step s (name, g)). canonicalize c \<noteq> canonicalize g"
  using greek_replace_kills [OF assms] by (simp add: greek_step_def replace_def)

lemma greek_step_keeps:
  assumes "\<forall>c \<in> set s. Q c" and "\<forall>c \<in> set (92 # asc name). Q c"
  shows "\<forall>c \<in> set (greek_step s (name, g)). Q c"
  using replace_chars [of True "greek_rx name g" "[Txt (92 # asc name)]" s] assms
  by (auto simp: greek_step_def)

lemma fold_greek_kills:
  assumes "(name, g) \<in> set es"
    and "\<forall>(n, g') \<in> set es. n \<noteq> [] \<and> (\<forall>c \<in> set (92 # asc n). canonicalize c \<noteq> canonicalize g)"
  shows "\<forall>c \<in> set (foldl greek_step s es). canonicalize c \<noteq> canonicalize g"
  using assms
proof (induction es rule: rev_induct)
  case Nil
  then show ?case by simp
next
  case (snoc e es)
  obtain n g' where e: "e = (n, g')" by (cases e)
  have ok: "n \<noteq> []" "\<forall>c \<in> set (92 # asc n). canonicalize c \<noteq> canonicalize g"
    using snoc.prems(2) e by auto
  show ?case
  proof (cases "(name, g) \<in> set es")
    case True
    have "\<forall>c \<in> set (foldl greek_step s es). canonicalize c \<noteq> canonicalize g"
      using snoc.IH True snoc.prems(2) by auto
    then show ?thesis
      using greek_step_keeps [of "foldl greek_step s es" "\<lambda>c. canonicalize c \<noteq> canonicalize g" n g'] ok
      by (simp add: e)
  next
    case False
    then have "e = (name, g)" using snoc.prems(1) by auto
    then show ?thesis
      using greek_step_kills [OF ok, of "foldl greek_step s es"] e by simp
  qed
qed

lemma table_names: "(n, g) \<in> set greekLetters \<Longrightarrow> n \<noteq> [] \<and> (\<forall>c \<in> set (asc n). lower_latin c)"
  by (auto simp: greekLetters_def asc_def lower_latin_def)

lemma table_glyphs: "(n, g) \<in> set greekLetters \<Longrightarrow> 945 \<le> g \<and> g \<le> 969 \<and> g \<noteq> 962"
  by (auto simp: greekLetters_def)

lemma canonicalize_ascii: "c < 128 \<Longrightarrow> canonicalize c < 128"
  by (auto simp: canonicalize_def lower_latin_def)

lemma canonicalize_greek: "945 \<le> g \<Longrightarrow> g \<le> 969 \<Longrightarrow> 913 \<le> canonicalize g"
  by (auto simp: canonicalize_def lower_latin_def)

lemma command_not_glyph:
  assumes "(n, g') \<in> set greekLetters" and "945 \<le> g" "g \<le> 969"
  shows "\<forall>c \<in> set (92 # asc n). canonicalize c \<noteq> canonicalize g"
proof
  fix c assume "c \<in> set (92 # asc n)"
  then have "c < 128"
    using table_names [OF assms(1)] by (auto simp: lower_latin_def)
  then have "canonicalize c < 128" by (rule canonicalize_ascii)
  moreover have "913 \<le> canonicalize g" using assms(2,3) by (rule canonicalize_greek)
  ultimately show "canonicalize c \<noteq> canonicalize g" by simp
qed

text \<open>After the Greek-letter pass no code unit is left that the glyph pattern of an entry matches.\<close>

lemma greek_pass_kills:
  assumes "(name, g) \<in> set greekLetters" and "c \<in> set (greek_pass s)"
  shows "canonicalize c \<noteq> canonicalize g"
proof -
  have g: "945 \<le> g" "g \<le> 969" using table_glyphs [OF assms(1)] by auto
  have "\<forall>(n, g') \<in> set greekLetters. n \<noteq> [] \<and> (\<forall>c \<in> set (92 # asc n). canonicalize c \<noteq> canonicalize g)"
    using table_names command_not_glyph [OF _ g] by blast
  from fold_greek_kills [OF assms(1) this] assms(2) show ?thesis
    by (simp add: greek_pass_def)
qed

lemma greek_pass_no_Lambda: "923 \<notin> set (greek_pass s)"
  using greek_pass_kills [of "''lambda''" 955 923 s]
  by (auto simp: greekLetters_def canonicalize_def lower_latin_def)

lemma greek_pass_no_mu: "956 \<notin> set (greek_pass s)"
  using greek_pass_kills [of "''mu''" 956 956 s]
  by (auto simp: greekLetters_def)

lemma greek_pass_no_Psi: "936 \<notin> set (greek_pass s)"
  using greek_pass_kills [of "''psi''" 968 936 s]
  by (auto simp: greekLetters_def canonicalize_def lower_latin_def)

lemma includes_js_set: "includes_js s t \<Longrightarrow> set t \<subseteq> set s"
  by (simp add: includes_js_def set_mono_sublist)

lemma einstein_guard_greek_pass: "\<not> einstein_guard (greek_pass s)"
  using greek_pass_no_Lambda [of s] by (auto simp: einstein_guard_def dest: includes_js_set)

lemma einstein_block_greek_pass: "einstein_block (greek_pass s) = greek_pass s"
  by (simp add: einstein_block_def einstein_guard_greek_pass)

lemma schrodinger_guard_greek_pass: "\<not> schrodinger_guard (greek_pass s)"
  using greek_pass_no_Psi [of s] by (auto simp: schrodinger_guard_def dest: includes_js_set)

lemma schrodinger_block_greek_pass: "schrodinger_block (greek_pass s) = greek_pass s"
  by (simp add: schrodinger_block_def schrodinger_guard_greek_pass)

section \<open>What the passes can write\<close>

lemma replace_preserves:
  assumes "\<forall>c \<in> set s. Q c" and "\<forall>c \<in> \<Union> (piece_chars ` set t). Q c"
  shows "\<forall>c \<in> set (replace ic r t s). Q c"
  using replace_chars [of ic r t s] assms by blast

lemma structural_passes_preserves:
  assumes "\<forall>c \<in> set s. Q c" and "\<forall>c < 128. Q c"
  shows "\<forall>c \<in> set (structural_passes s). Q c"
  unfolding structural_passes_eq
  by (intro replace_preserves assms(1))
     (simp_all add: assms(2) subscript_to_def superscript_to_def fraction_to_def asc_def)

lemma greek_step_preserves:
  assumes "\<forall>c \<in> set s. Q c" and "\<forall>c < 128. Q c" and "e \<in> set greekLetters"
  shows "\<forall>c \<in> set (greek_step s e). Q c"
proof -
  obtain n g where e: "e = (n, g)" by (cases e)
  have "\<forall>c \<in> set (92 # asc n). c < 128"
    using table_names [of n g] assms(3) e by (auto simp: lower_latin_def)
  with assms(2) have "\<forall>c \<in> set (92 # asc n). Q c" by blast
  with assms(1) show ?thesis
    unfolding e by (rule greek_step_keeps)
qed

lemma fold_greek_preserves:
  assumes "\<forall>c \<in> set s. Q c" and "\<forall>c < 128. Q c" and "set es \<subseteq> set greekLetters"
  shows "\<forall>c \<in> set (foldl greek_step s es). Q c"
  using assms
proof (induction es arbitrary: s)
  case Nil
  then show ?case by simp
next
  case (Cons e es)
  have "\<forall>c \<in> set (greek_step s e). Q c"
    using Cons.prems by (intro greek_step_preserves) auto
  then show ?case
    using Cons.IH [of "greek_step s e"] Cons.prems by simp
qed

lemma greek_pass_preserves:
  assumes "\<forall>c \<in> set s. Q c" and "\<forall>c < 128. Q c"
  shows "\<forall>c \<in> set (greek_pass s). Q c"
  unfolding greek_pass_def using assms by (intro fold_greek_preserves) auto

lemma maxwell_block_preserves:
  assumes "\<forall>c \<in> set s. Q c" and "\<forall>c < 128. Q c"
  shows "\<forall>c \<in> set (maxwell_block s). Q c"
proof -
  have t: "\<forall>c \<in> \<Union> (piece_chars ` set (vec_to oper field)). Q c"
    if "\<forall>c \<in> set (asc oper) \<union> set (asc field). c < 128" for oper field
    using that assms(2) by (auto simp: vec_to_def asc_def)
  have "\<forall>c \<in> set (maxwell_rewrites s). Q c"
    unfolding maxwell_rewrites_eq
    by (intro replace_preserves assms(1) t) (simp_all add: asc_def)
  with assms(1) show ?thesis by (simp add: maxwell_block_def)
qed

text \<open>The rewriter without its two dead blocks.\<close>

lemma processInput_live: "processInput s = greek_pass (structural_passes s)"
  by (simp add: processInput_eq einstein_block_greek_pass)

lemma processToLatex_live: "processToLatex s = maxwell_block (greek_pass (structural_passes s))"
  by (simp add: processToLatex_eq einstein_block_greek_pass schrodinger_block_greek_pass)

lemma processInput_preserves:
  assumes "\<forall>c \<in> set s. Q c" and "\<forall>c < 128. Q c"
  shows "\<forall>c \<in> set (processInput s). Q c"
  unfolding processInput_live
  by (intro greek_pass_preserves structural_passes_preserves assms)

lemma includes_js_single [simp]: "includes_js s [c] \<longleftrightarrow> c \<in> set s"
  by (induction s) (auto simp: includes_js_def sublist_Cons_right)

section \<open>Texts the passes leave unchanged\<close>

lemma step_char_head:
  "st' \<in> set (step_char P st) \<Longrightarrow> \<exists>x. text_of st = x # text_of st' \<and> P x"
  by (cases "(P, st)" rule: step_char.cases) (auto split: if_splits)

lemma lit_head: "st' \<in> set (ms (Lit c) False st) \<Longrightarrow> text_of st = c # text_of st'"
  using step_char_head [of st' "\<lambda>x. x = c" st] by simp

lemma lit_ci_head:
  "st' \<in> set (ms (Lit c) True st) \<Longrightarrow>
   \<exists>x. text_of st = x # text_of st' \<and> canonicalize x = canonicalize c"
  using step_char_head [of st' "\<lambda>x. canonicalize x = canonicalize c" st] by simp

text \<open>A pattern with a literal code unit behind its first part needs that code unit in the text.\<close>

lemma seq_lit_needs:
  assumes "st' \<in> set (ms (Seq a (Seq (Lit c) b)) False st)"
  shows "c \<in> set (text_of st)"
proof -
  from assms obtain st1 st2 where 1: "st1 \<in> set (ms a False st)" and 2: "st2 \<in> set (ms (Lit c) False st1)"
    unfolding in_ms_Seq by blast
  have "suffix (text_of st1) (text_of st)" using 1 by (rule ms_suffix)
  moreover have "text_of st1 = c # text_of st2" using 2 by (rule lit_head)
  ultimately show ?thesis
    by (metis list.set_intros(1) set_mono_suffix subsetD)
qed

lemma replace_unchanged_without:
  assumes "c \<notin> set s" and "\<And>st st'. st' \<in> set (ms r ic st) \<Longrightarrow> c \<in> set (text_of st)"
  shows "replace ic r t s = s"
proof (rule replace_no_match)
  fix p' s' assume suf: "suffix s' s"
  show "match_at ic r p' s' = None"
  proof (rule ccontr)
    assume "match_at ic r p' s' \<noteq> None"
    then obtain st' where "st' \<in> set (ms r ic (p', s', []))"
      by (auto dest: match_at_Some_in)
    from assms(2) [OF this] have "c \<in> set s'" by simp
    with assms(1) suf show False by (auto dest: set_mono_suffix)
  qed
qed

lemma subscript_unchanged: "95 \<notin> set s \<Longrightarrow> replace False subscript_rx subscript_to s = s"
  unfolding subscript_rx_def seqs.simps
  by (erule replace_unchanged_without) (rule seq_lit_needs)

lemma superscript_needs:
  assumes "st' \<in> set (ms superscript_rx False st)"
  shows "94 \<in> set (text_of st)"
proof -
  from assms
  have "st' \<in> set (ms (Seq (Group 1 alnum_cls) (Seq (Group 2 (Lit 94)) (Group 3 (Plus alnum_cls)))) False st)"
    by (simp only: superscript_rx_def seqs.simps)
  then obtain st1 where 1: "st1 \<in> set (ms (Group 1 alnum_cls) False st)"
    and "st' \<in> set (ms (Seq (Group 2 (Lit 94)) (Group 3 (Plus alnum_cls))) False st1)"
    unfolding in_ms_Seq [of st' "Group 1 alnum_cls"] by blast
  then obtain st2 where "st2 \<in> set (ms (Group 2 (Lit 94)) False st1)"
    unfolding in_ms_Seq by blast
  then obtain st3 where 2: "st3 \<in> set (ms (Lit 94) False st1)"
    unfolding in_ms_Group by blast
  have "suffix (text_of st1) (text_of st)" using 1 by (rule ms_suffix)
  moreover have "text_of st1 = 94 # text_of st3" using 2 by (rule lit_head)
  ultimately show ?thesis
    by (metis list.set_intros(1) set_mono_suffix subsetD)
qed

lemma superscript_unchanged: "94 \<notin> set s \<Longrightarrow> replace False superscript_rx superscript_to s = s"
  by (erule replace_unchanged_without) (rule superscript_needs)

lemma fraction_unchanged: "47 \<notin> set s \<Longrightarrow> replace False fraction_rx fraction_to s = s"
  unfolding fraction_rx_def seqs.simps
  by (erule replace_unchanged_without) (rule seq_lit_needs)

lemma structural_passes_unchanged:
  "95 \<notin> set s \<Longrightarrow> 94 \<notin> set s \<Longrightarrow> 47 \<notin> set s \<Longrightarrow> structural_passes s = s"
  by (simp add: structural_passes_eq subscript_unchanged superscript_unchanged fraction_unchanged)

text \<open>A name pattern matches only where the name stands, in some case.\<close>

lemma str_ci_prefix:
  "st' \<in> set (ms (str t) True st) \<Longrightarrow> prefix (map canonicalize t) (map canonicalize (text_of st))"
proof (induction t arbitrary: st rule: str.induct)
  case 1
  then show ?case by simp
next
  case (2 c)
  then have "st' \<in> set (ms (Lit c) True st)" by simp
  from lit_ci_head [OF this] show ?case by auto
next
  case (3 c d t)
  from "3.prems" obtain st1 where a: "st1 \<in> set (ms (Lit c) True st)"
    and b: "st' \<in> set (ms (str (d # t)) True st1)"
    by auto
  from lit_ci_head [OF a] obtain x where "text_of st = x # text_of st1" "canonicalize x = canonicalize c"
    by blast
  with "3.IH" [OF b] show ?case by simp
qed

lemma greek_rx_match:
  assumes "st' \<in> set (ms (greek_rx name g) True st)"
  shows "prefix (map canonicalize (asc name)) (map canonicalize (text_of st)) \<or>
         (\<exists>x \<in> set (text_of st). canonicalize x = canonicalize g)"
proof -
  from assms consider "st' \<in> set (ms (Seq WordB (Seq (str (asc name)) WordB)) True st)"
    | "st' \<in> set (ms (Lit g) True st)"
    by (auto simp: greek_rx_def)
  then show ?thesis
  proof cases
    case 1
    then obtain st1 st2 where "st1 \<in> set (ms WordB True st)" "st2 \<in> set (ms (str (asc name)) True st1)"
      unfolding in_ms_Seq by blast
    moreover from this have "st1 = st" by (simp split: if_splits)
    ultimately show ?thesis by (auto dest: str_ci_prefix)
  next
    case 2
    from lit_ci_head [OF this] show ?thesis by auto
  qed
qed

lemma greek_step_unchanged:
  assumes "\<not> includes_ci s (asc name)" and "\<forall>x \<in> set s. canonicalize x \<noteq> canonicalize g"
  shows "greek_step s (name, g) = s"
proof -
  have "match_at True (greek_rx name g) p' s' = None" if suf: "suffix s' s" for p' s'
  proof (rule ccontr)
    assume "match_at True (greek_rx name g) p' s' \<noteq> None"
    then obtain st' where "st' \<in> set (ms (greek_rx name g) True (p', s', []))"
      by (auto dest: match_at_Some_in)
    from greek_rx_match [OF this]
    consider "prefix (map canonicalize (asc name)) (map canonicalize s')"
      | "\<exists>x \<in> set s'. canonicalize x = canonicalize g"
      by auto
    then show False
    proof cases
      case 1
      moreover have "suffix (map canonicalize s') (map canonicalize s)"
        using suf by (rule map_mono_suffix)
      ultimately have "sublist (map canonicalize (asc name)) (map canonicalize s)"
        unfolding sublist_altdef' by blast
      with assms(1) show False by (simp add: includes_ci_def)
    next
      case 2
      with assms(2) suf show False by (auto dest: set_mono_suffix)
    qed
  qed
  then show ?thesis
    by (simp add: greek_step_def replace_no_match)
qed

lemma foldl_unchanged: "(\<And>e. e \<in> set es \<Longrightarrow> f s e = s) \<Longrightarrow> foldl f s es = s"
  by (induction es) simp_all

lemma greek_pass_unchanged:
  assumes "\<not> has_greek_name s" and "\<not> has_greek_glyph s"
  shows "greek_pass s = s"
  unfolding greek_pass_def
proof (rule foldl_unchanged)
  fix e assume e: "e \<in> set greekLetters"
  obtain n g where ng: "e = (n, g)" by (cases e)
  have "\<not> includes_ci s (asc n)"
    using assms(1) e ng by (auto simp: has_greek_name_def)
  moreover have "\<forall>x \<in> set s. canonicalize x \<noteq> canonicalize g"
    using assms(2) e ng by (auto simp: has_greek_glyph_def)
  ultimately show "greek_step s e = s"
    unfolding ng by (rule greek_step_unchanged)
qed

lemma blocks_unchanged:
  assumes "\<not> has_trigger s"
  shows "maxwell_block (schrodinger_block (einstein_block s)) = s"
  using assms
  by (simp add: has_trigger_def einstein_block_def schrodinger_block_def maxwell_block_def)

section \<open>Greedy runs\<close>

lemma iter_step_char_Nil: "iter (step_char P) n (p, [], cs) = [(p, [], cs)]"
  by (cases n) simp_all

lemma iter_step_char_Cons:
  "iter (step_char P) (Suc n) (p, x # r, cs) =
     (if P x then iter (step_char P) n (Some x, r, cs) @ [(p, x # r, cs)] else [(p, x # r, cs)])"
  by simp

text \<open>
  A greedy run followed by something that cannot start inside the run: only the end of
  the whole run is a candidate.
\<close>

lemma run_then:
  assumes "\<And>p' x r' cs'. P x \<Longrightarrow> g (p', x # r', cs') = []" and "length r \<le> n"
  shows "\<exists>p'. concat (map g (iter (step_char P) n (p, r, cs))) = g (p', dropWhile P r, cs)"
  using assms(2)
proof (induction r arbitrary: n p)
  case Nil
  then show ?case by (auto simp: iter_step_char_Nil)
next
  case (Cons x r)
  then obtain m where n: "n = Suc m" by (cases n) auto
  show ?case
  proof (cases "P x")
    case True
    from Cons.prems n have "length r \<le> m" by simp
    from Cons.IH [OF this, of "Some x"] obtain p' where
      "concat (map g (iter (step_char P) m (Some x, r, cs))) = g (p', dropWhile P r, cs)" ..
    with True assms(1) [OF True] show ?thesis
      unfolding n iter_step_char_Cons by auto
  next
    case False
    then show ?thesis
      unfolding n iter_step_char_Cons by auto
  qed
qed

text \<open>The greedy run itself comes first.\<close>

lemma run_first:
  assumes "length r \<le> n"
  shows "\<exists>p' rest. iter (step_char P) n (p, r, cs) = (p', dropWhile P r, cs) # rest"
  using assms
proof (induction r arbitrary: n p)
  case Nil
  then show ?case by (auto simp: iter_step_char_Nil)
next
  case (Cons x r)
  then obtain m where n: "n = Suc m" by (cases n) auto
  show ?case
  proof (cases "P x")
    case True
    from Cons.prems n have "length r \<le> m" by simp
    from Cons.IH [OF this, of "Some x"] True show ?thesis
      unfolding n iter_step_char_Cons by auto
  next
    case False
    then show ?thesis
      unfolding n iter_step_char_Cons by auto
  qed
qed

section \<open>Matches that exist\<close>

lemma reaches_Seq: "reaches a ic s s1 \<Longrightarrow> reaches b ic s1 s2 \<Longrightarrow> reaches (Seq a b) ic s s2"
  unfolding in_ms_Seq by meson

lemma reaches_Lit: "reaches (Lit c) False (c # s) s"
  by simp

lemma reaches_str: "reaches (str t) False (t @ s) s"
proof (induction t rule: str.induct)
  case (3 c d t)
  have "reaches (Seq (Lit c) (str (d # t))) False (c # (d # t) @ s) s"
    using reaches_Lit "3.IH" by (rule reaches_Seq)
  then show ?case by simp
qed simp_all

lemma iter_dot_reaches:
  assumes "\<forall>x \<in> set a. \<not> line_terminator x" and "length a \<le> n"
  shows "\<exists>p'. (p', s, cs) \<in> set (iter (ms Dot ic) n (p, a @ s, cs))"
  using assms
proof (induction a arbitrary: n p)
  case Nil
  then show ?case by (cases n) auto
next
  case (Cons x a)
  then obtain m where n: "n = Suc m" by (cases n) auto
  from Cons.prems have "\<exists>p'. (p', s, cs) \<in> set (iter (ms Dot ic) m (Some x, a @ s, cs))"
    by (intro Cons.IH) (auto simp: n)
  moreover have "(Some x, a @ s, cs) \<in> set (ms Dot ic (p, (x # a) @ s, cs))"
    using Cons.prems by simp
  ultimately show ?case
    unfolding n in_iter_Suc by fastforce
qed

lemma reaches_Star_Dot: "\<forall>x \<in> set a. \<not> line_terminator x \<Longrightarrow> reaches (Star Dot) ic (a @ s) s"
  using iter_dot_reaches [of a "length (a @ s)" s _ ic] by simp

lemma test_from_later:
  assumes "\<And>p. match_at ic r p s \<noteq> None"
  shows "test_from ic r p (pre @ s)"
proof (induction pre arbitrary: p)
  case Nil
  from assms [of p] show ?case by (cases s) auto
next
  case (Cons c pre)
  then show ?case by simp
qed

lemma test_reaches: "reaches r ic s s' \<Longrightarrow> test ic r (pre @ s)"
  unfolding test_def
proof (rule test_from_later)
  fix p assume "reaches r ic s s'"
  then obtain p' where "(p', s', []) \<in> set (ms r ic (p, s, []))" by blast
  then show "match_at ic r p s \<noteq> None"
    by (auto simp: match_at_None)
qed

section \<open>The patterns of the Maxwell block\<close>

lemma seq_star_space:
  "ms (Seq (Star Space) b) ic (p, r, cs) =
     concat (map (ms b ic) (iter (step_char white_space) (length r) (p, r, cs)))"
  by simp

lemma lit_Cons: "ms (Lit c) False (p, x # r, cs) = (if x = c then [(Some c, r, cs)] else [])"
  by simp

lemma lit_Nil: "ms (Lit c) ic (p, [], cs) = []"
  by simp

lemma seq_lit_Cons:
  "ms (Seq (Lit c) b) False (p, x # r, cs) = (if x = c then ms b False (Some c, r, cs) else [])"
  by simp

lemma seq_lit_Nil: "ms (Seq (Lit c) b) ic (p, [], cs) = []"
  by simp

lemma space_then_lit:
  assumes "\<not> white_space c"
  shows "ms (Seq (Star Space) (Seq (Lit c) b)) False (p, r, cs) =
           (case skip_then white_space c r of None \<Rightarrow> [] | Some r' \<Rightarrow> ms b False (Some c, r', cs))"
proof -
  let ?g = "ms (Seq (Lit c) b) False"
  have "?g (p', x # r', cs') = []" if "white_space x" for p' x r' cs'
    using that assms by (auto simp only: seq_lit_Cons split: if_splits)
  from run_then [of white_space ?g r "length r" p cs, OF this]
  obtain p' where "concat (map ?g (iter (step_char white_space) (length r) (p, r, cs)))
      = ?g (p', dropWhile white_space r, cs)" by auto
  then have "ms (Seq (Star Space) (Seq (Lit c) b)) False (p, r, cs) = ?g (p', dropWhile white_space r, cs)"
    by (simp only: seq_star_space)
  also have "\<dots> = (case skip_then white_space c r of None \<Rightarrow> [] | Some r' \<Rightarrow> ms b False (Some c, r', cs))"
    by (cases "dropWhile white_space r") (simp_all only: seq_lit_Cons seq_lit_Nil skip_then_def list.case option.case split: if_splits, auto)
  finally show ?thesis .
qed

lemma space_then_last:
  assumes "\<not> white_space c"
  shows "ms (Seq (Star Space) (Lit c)) False (p, r, cs) =
           (case skip_then white_space c r of None \<Rightarrow> [] | Some r' \<Rightarrow> [(Some c, r', cs)])"
proof -
  let ?g = "ms (Lit c) False"
  have "?g (p', x # r', cs') = []" if "white_space x" for p' x r' cs'
    using that assms by (auto simp only: lit_Cons split: if_splits)
  from run_then [of white_space ?g r "length r" p cs, OF this]
  obtain p' where "concat (map ?g (iter (step_char white_space) (length r) (p, r, cs)))
      = ?g (p', dropWhile white_space r, cs)" by auto
  then have "ms (Seq (Star Space) (Lit c)) False (p, r, cs) = ?g (p', dropWhile white_space r, cs)"
    by (simp only: seq_star_space)
  also have "\<dots> = (case skip_then white_space c r of None \<Rightarrow> [] | Some r' \<Rightarrow> [(Some c, r', cs)])"
    by (cases "dropWhile white_space r") (simp_all only: lit_Cons lit_Nil skip_then_def list.case option.case split: if_splits, auto)
  finally show ?thesis .
qed

lemma ms_nabla_rx:
  assumes "\<not> white_space oper" and "\<not> white_space field"
  shows "ms (nabla_rx oper field) False (p, s, cs) =
           (case nabla_match oper field s of None \<Rightarrow> [] | Some r \<Rightarrow> [(Some field, r, cs)])"
proof -
  let ?b = "Seq (Star Space) (Lit field)"
  have rx: "nabla_rx oper field = Seq (Lit 8711) (Seq (Star Space) (Seq (Lit oper) ?b))"
    by (simp add: nabla_rx_def)
  show ?thesis
  proof (cases s)
    case Nil
    then show ?thesis by (simp only: rx seq_lit_Nil nabla_match_def list.case option.case)
  next
    case (Cons x r)
    show ?thesis
    proof (cases "x = 8711")
      case False
      with Cons show ?thesis
        by (simp only: rx seq_lit_Cons nabla_match_def list.case option.case if_False)
    next
      case True
      show ?thesis
      proof (cases "skip_then white_space oper r")
        case None
        with Cons True show ?thesis
          by (simp only: rx seq_lit_Cons nabla_match_def list.case option.case if_True
              space_then_lit [OF assms(1)] bind.bind_lzero refl)
      next
        case (Some r')
        with Cons True show ?thesis
          by (simp only: rx seq_lit_Cons nabla_match_def list.case option.case if_True
              space_then_lit [OF assms(1)] space_then_last [OF assms(2)] bind.bind_lunit refl)
      qed
    qed
  qed
qed

lemma match_at_nabla_rx:
  assumes "\<not> white_space oper" and "\<not> white_space field"
  shows "match_at False (nabla_rx oper field) p s =
           (case nabla_match oper field s of None \<Rightarrow> None | Some r \<Rightarrow> Some (Some field, r, []))"
  by (simp add: match_at_def ms_nabla_rx [OF assms] split: option.splits)


lemma skip_then_suffix: "skip_then P c s = Some r \<Longrightarrow> suffix r s \<and> length r < length s"
proof -
  assume a: "skip_then P c s = Some r"
  then have "dropWhile P s = c # r"
    by (auto simp: skip_then_def split: list.splits if_splits)
  moreover have "suffix (dropWhile P s) s" by (rule suffix_dropWhile)
  ultimately show ?thesis
    by (metis suffix_ConsD suffix_length_le length_Cons less_eq_Suc_le)
qed

lemma nabla_match_shorter: "nabla_match oper field s = Some r \<Longrightarrow> length r < length s"
  by (cases s) (auto simp: nabla_match_def bind_eq_Some_conv split: if_splits dest!: skip_then_suffix)

lemma nabla_match_head: "s \<noteq> [] \<Longrightarrow> hd s \<noteq> 8711 \<Longrightarrow> nabla_match oper field (s @ v) = None"
  by (cases s) (auto simp: nabla_match_def)

lemma replace_nabla_Cons:
  assumes "\<not> white_space oper" and "\<not> white_space field"
  shows "replace_from False (nabla_rx oper field) t p (c # s) =
           (case nabla_match oper field (c # s) of
              None \<Rightarrow> c # replace_from False (nabla_rx oper field) t (Some c) s
            | Some r \<Rightarrow> expand t [] @ replace_from False (nabla_rx oper field) t (Some field) r)"
proof (cases "nabla_match oper field (c # s)")
  case None
  then show ?thesis
    by (simp add: replace_from_Cons_None match_at_nabla_rx [OF assms])
next
  case (Some r)
  then have "match_at False (nabla_rx oper field) p (c # s) = Some (Some field, r, [])"
    by (simp add: match_at_nabla_rx [OF assms])
  moreover have "length r < length (c # s)"
    using Some by (rule nabla_match_shorter)
  ultimately show ?thesis
    using Some by (simp add: replace_from_Some_shorter)
qed

lemma replace_nabla_Nil:
  assumes "\<not> white_space oper" and "\<not> white_space field"
  shows "replace_from False (nabla_rx oper field) t p [] = []"
  by (simp add: replace_from_Nil_None match_at_nabla_rx [OF assms] nabla_match_def)

lemma replace_nabla_indep:
  assumes "\<not> white_space oper" and "\<not> white_space field"
  shows "replace_from False (nabla_rx oper field) t p s = replace_from False (nabla_rx oper field) t p' s"
proof (induction s arbitrary: p p')
  case Nil
  show ?case by (simp add: replace_nabla_Nil [OF assms])
next
  case (Cons c s)
  show ?case
    by (simp add: replace_nabla_Cons [OF assms] split: option.splits)
qed

text \<open>One pass of the block, as a function of the text.\<close>

lemma pass_Nil:
  assumes "\<not> white_space oper" and "\<not> white_space field"
  shows "replace False (nabla_rx oper field) t [] = []"
  by (simp add: replace_def replace_nabla_Nil [OF assms])

lemma pass_Cons:
  assumes "\<not> white_space oper" and "\<not> white_space field"
  shows "replace False (nabla_rx oper field) t (c # s) =
           (case nabla_match oper field (c # s) of
              None \<Rightarrow> c # replace False (nabla_rx oper field) t s
            | Some r \<Rightarrow> expand t [] @ replace False (nabla_rx oper field) t r)"
  unfolding replace_def replace_nabla_Cons [OF assms]
  using replace_nabla_indep [OF assms, of t _ _ None]
  by (simp split: option.splits)


text \<open>
  A code unit that is neither white space, nor the operator, nor the field stops every
  match that has begun before it: the pass treats the text before it on its own.
\<close>

lemma skip_then_barrier:
  assumes "\<not> P z" and "z \<noteq> c"
  shows "skip_then P c (a @ z # rest) = map_option (\<lambda>r. r @ z # rest) (skip_then P c a)"
proof (cases "\<forall>x \<in> set a. P x")
  case True
  then have "dropWhile P (a @ z # rest) = dropWhile P (z # rest)"
    by (intro dropWhile_append2) simp
  then have 1: "dropWhile P (a @ z # rest) = z # rest"
    using assms(1) by simp
  have 2: "dropWhile P a = []"
    using True by simp
  show ?thesis
    unfolding skip_then_def 1 2 using assms(2) by simp
next
  case False
  then have "dropWhile P (a @ z # rest) = dropWhile P a @ z # rest" "dropWhile P a \<noteq> []"
    by (auto simp: dropWhile_append)
  then show ?thesis
    by (cases "dropWhile P a") (simp_all add: skip_then_def)
qed

lemma nabla_match_barrier:
  assumes "\<not> white_space z" and "z \<noteq> oper" and "z \<noteq> field" and "a \<noteq> []"
  shows "nabla_match oper field (a @ z # rest) = map_option (\<lambda>r. r @ z # rest) (nabla_match oper field a)"
proof -
  obtain x a' where a: "a = x # a'" using assms(4) by (cases a) auto
  show ?thesis
  proof (cases "skip_then white_space oper a'")
    case None
    then show ?thesis
      by (simp add: a nabla_match_def skip_then_barrier [of white_space z oper, OF assms(1,2)])
  next
    case (Some r)
    then show ?thesis
      by (simp add: a nabla_match_def skip_then_barrier [of white_space z oper, OF assms(1,2)]
          skip_then_barrier [of white_space z field, OF assms(1,3)])
  qed
qed

lemma pass_barrier:
  assumes "\<not> white_space oper" and "\<not> white_space field"
    and "\<not> white_space z" and "z \<noteq> oper" and "z \<noteq> field"
  shows "replace False (nabla_rx oper field) t (u @ z # rest) =
           replace False (nabla_rx oper field) t u @ replace False (nabla_rx oper field) t (z # rest)"
proof (induction "length u" arbitrary: u rule: less_induct)
  case less
  show ?case
  proof (cases u)
    case Nil
    then show ?thesis by (simp add: pass_Nil [OF assms(1,2)])
  next
    case (Cons c u')
    have m: "nabla_match oper field (u @ z # rest) = map_option (\<lambda>r. r @ z # rest) (nabla_match oper field u)"
      using assms(3-5) by (rule nabla_match_barrier) (simp add: Cons)
    show ?thesis
    proof (cases "nabla_match oper field u")
      case None
      with m less [of u'] show ?thesis
        by (simp add: Cons pass_Cons [OF assms(1,2)])
    next
      case (Some r)
      then have "length r < length u" by (rule nabla_match_shorter)
      from less [OF this] m Some show ?thesis
        by (simp add: Cons pass_Cons [OF assms(1,2)])
    qed
  qed
qed

text \<open>A stretch of text in which the pattern starts nowhere is copied.\<close>

lemma pass_inert:
  assumes "\<not> white_space oper" and "\<not> white_space field"
    and "\<And>m' v'. suffix m' m \<Longrightarrow> m' \<noteq> [] \<Longrightarrow> nabla_match oper field (m' @ v') = None"
  shows "replace False (nabla_rx oper field) t (m @ v) = m @ replace False (nabla_rx oper field) t v"
  using assms(3)
proof (induction m)
  case Nil
  show ?case by simp
next
  case (Cons c m)
  have "nabla_match oper field ((c # m) @ v) = None"
    by (rule Cons.prems) simp_all
  moreover have "replace False (nabla_rx oper field) t (m @ v) = m @ replace False (nabla_rx oper field) t v"
    by (rule Cons.IH) (simp add: Cons.prems suffix_ConsI)
  ultimately show ?case
    by (simp add: pass_Cons [OF assms(1,2)])
qed

lemma pass_no_nabla:
  assumes "\<not> white_space oper" and "\<not> white_space field" and "8711 \<notin> set m"
  shows "replace False (nabla_rx oper field) t (m @ v) = m @ replace False (nabla_rx oper field) t v"
proof (rule pass_inert [OF assms(1,2)])
  fix m' v' assume "suffix m' m" "m' \<noteq> []"
  then have "hd m' \<in> set m"
    by (metis hd_in_set set_mono_suffix subsetD)
  with assms(3) have "hd m' \<noteq> 8711" by auto
  with \<open>m' \<noteq> []\<close> show "nabla_match oper field (m' @ v') = None"
    by (rule nabla_match_head)
qed

text \<open>An occurrence: nabla, white space, the operator, white space, the field.\<close>

lemma skip_then_run:
  assumes "\<forall>x \<in> set w. P x" and "\<not> P c"
  shows "skip_then P c' (w @ c # r) = (if c = c' then Some r else None)"
  using assms by (simp add: skip_then_def dropWhile_append)

lemma nabla_match_occurrence:
  assumes "\<forall>x \<in> set w1. white_space x" and "\<forall>x \<in> set w2. white_space x"
    and "\<not> white_space o'" and "\<not> white_space f'"
  shows "nabla_match oper field (8711 # w1 @ o' # w2 @ f' # v) =
           (if o' = oper \<and> f' = field then Some v else None)"
  using assms by (auto simp: nabla_match_def skip_then_run)

lemma pass_own:
  assumes "\<not> white_space oper" and "\<not> white_space field"
    and "\<forall>x \<in> set w1. white_space x" and "\<forall>x \<in> set w2. white_space x"
  shows "replace False (nabla_rx oper field) t (8711 # w1 @ oper # w2 @ field # v) =
           expand t [] @ replace False (nabla_rx oper field) t v"
  by (simp add: pass_Cons [OF assms(1,2)] nabla_match_occurrence [OF assms(3,4,1,2)])

lemma pass_other:
  assumes "\<not> white_space oper" and "\<not> white_space field"
    and "\<forall>x \<in> set w1. white_space x" and "\<forall>x \<in> set w2. white_space x"
    and "\<not> white_space o'" and "\<not> white_space f'" and "o' \<noteq> 8711" and "f' \<noteq> 8711"
    and "\<not> (o' = oper \<and> f' = field)"
  shows "replace False (nabla_rx oper field) t ((8711 # w1 @ o' # w2 @ [f']) @ v) =
           (8711 # w1 @ o' # w2 @ [f']) @ replace False (nabla_rx oper field) t v"
proof (rule pass_inert [OF assms(1,2)])
  fix m' v' assume suf: "suffix m' (8711 # w1 @ o' # w2 @ [f'])" and ne: "m' \<noteq> []"
  from suf consider "m' = 8711 # w1 @ o' # w2 @ [f']" | "suffix m' (w1 @ o' # w2 @ [f'])"
    by (auto simp: suffix_Cons)
  then show "nabla_match oper field (m' @ v') = None"
  proof cases
    case 1
    then show ?thesis
      using nabla_match_occurrence [OF assms(3,4,5,6), of oper field v'] assms(9) by simp
  next
    case 2
    with ne have "hd m' \<in> set (w1 @ o' # w2 @ [f'])"
      by (metis hd_in_set set_mono_suffix subsetD)
    moreover have "\<not> white_space 8711" by (simp add: white_space_def)
    ultimately have "hd m' \<noteq> 8711"
      using assms(3,4,7,8) by auto
    with ne show ?thesis by (rule nabla_match_head)
  qed
qed


lemma pass_over_text:
  assumes "\<not> white_space oper" and "\<not> white_space field" and "oper \<noteq> 92" and "field \<noteq> 92"
    and "m = 92 # m'" and "8711 \<notin> set m"
  shows "replace False (nabla_rx oper field) t (x @ m @ y) =
           replace False (nabla_rx oper field) t x @ m @ replace False (nabla_rx oper field) t y"
proof -
  have "\<not> white_space 92" by (simp add: white_space_def)
  then have "replace False (nabla_rx oper field) t (x @ 92 # m' @ y) =
      replace False (nabla_rx oper field) t x @ replace False (nabla_rx oper field) t (92 # m' @ y)"
    using assms(3,4) by (intro pass_barrier [OF assms(1,2)]) auto
  moreover have "replace False (nabla_rx oper field) t (m @ y) = m @ replace False (nabla_rx oper field) t y"
    using assms(1,2,6) by (rule pass_no_nabla)
  ultimately show ?thesis by (simp add: assms(5))
qed

lemma pass_split_at_nabla:
  assumes "\<not> white_space oper" and "\<not> white_space field" and "oper \<noteq> 8711" and "field \<noteq> 8711"
  shows "replace False (nabla_rx oper field) t (x @ 8711 # y) =
           replace False (nabla_rx oper field) t x @ replace False (nabla_rx oper field) t (8711 # y)"
proof -
  have "\<not> white_space 8711" by (simp add: white_space_def)
  then show ?thesis
    using assms(3,4) by (intro pass_barrier [OF assms(1,2)]) auto
qed

lemma pass_rewrites_occurrence:
  assumes "\<not> white_space oper" and "\<not> white_space field" and "oper \<noteq> 8711" and "field \<noteq> 8711"
    and "\<forall>x \<in> set w1. white_space x" and "\<forall>x \<in> set w2. white_space x"
    and "occ = 8711 # w1 @ oper # w2 @ [field]"
  shows "replace False (nabla_rx oper field) t (x @ occ @ y) =
           replace False (nabla_rx oper field) t x @ expand t [] @ replace False (nabla_rx oper field) t y"
  using pass_split_at_nabla [OF assms(1-4), of t x "w1 @ oper # w2 @ field # y"]
    pass_own [OF assms(1,2,5,6), of t y]
  by (simp add: assms(7))

lemma pass_over_occurrence:
  assumes "\<not> white_space oper" and "\<not> white_space field" and "oper \<noteq> 8711" and "field \<noteq> 8711"
    and "\<forall>x \<in> set w1. white_space x" and "\<forall>x \<in> set w2. white_space x"
    and "\<not> white_space o'" and "\<not> white_space f'" and "o' \<noteq> 8711" and "f' \<noteq> 8711"
    and "\<not> (o' = oper \<and> f' = field)"
    and "occ = 8711 # w1 @ o' # w2 @ [f']"
  shows "replace False (nabla_rx oper field) t (x @ occ @ y) =
           replace False (nabla_rx oper field) t x @ occ @ replace False (nabla_rx oper field) t y"
  using pass_split_at_nabla [OF assms(1-4), of t x "w1 @ o' # w2 @ f' # y"]
    pass_other [OF assms(1,2,5,6,7,8,9,10,11), of t y]
  by (simp add: assms(12))

text \<open>The text a pass of the block writes.\<close>

lemma expand_vec_to:
  "expand (vec_to oper field) cs = 92 # asc ''nabla '' @ 92 # asc oper @ 32 # 92 # asc ''vec{'' @ asc field @ asc ''}''"
  by (simp add: vec_to_def asc_def)

lemma vec_text_no_nabla:
  "8711 \<notin> set (asc ''nabla '' @ 92 # asc ''cdot'' @ 32 # 92 # asc ''vec{'' @ asc ''E'' @ asc ''}'')"
  "8711 \<notin> set (asc ''nabla '' @ 92 # asc ''cdot'' @ 32 # 92 # asc ''vec{'' @ asc ''B'' @ asc ''}'')"
  "8711 \<notin> set (asc ''nabla '' @ 92 # asc ''times'' @ 32 # 92 # asc ''vec{'' @ asc ''E'' @ asc ''}'')"
  "8711 \<notin> set (asc ''nabla '' @ 92 # asc ''times'' @ 32 # 92 # asc ''vec{'' @ asc ''B'' @ asc ''}'')"
  by (simp_all add: asc_def)

lemma not_white_space: "\<not> white_space 46" "\<not> white_space 215" "\<not> white_space 69" "\<not> white_space 66"
  by (simp_all add: white_space_def)

text \<open>
  The four passes on a text with an occurrence: the text before and the text behind
  are rewritten on their own, and the occurrence becomes the command of its operator
  and field.
\<close>

lemma maxwell_rewrites_occurrence:
  assumes ws: "\<forall>x \<in> set w1. white_space x" "\<forall>x \<in> set w2. white_space x"
    and oper: "(oper, name) \<in> {(46, ''cdot''), (215, ''times'')}"
    and field: "(field, letter) \<in> {(69, ''E''), (66, ''B'')}"
  shows "maxwell_rewrites (u @ (8711 # w1 @ oper # w2 @ [field]) @ v) =
           maxwell_rewrites u @ expand (vec_to name letter) [] @ maxwell_rewrites v"
proof -
  define occ where "occ = 8711 # w1 @ oper # w2 @ [field]"
  define r where "r = expand (vec_to name letter) []"
  have nw: "\<not> white_space oper" "\<not> white_space field" "oper \<noteq> 8711" "field \<noteq> 8711"
    using oper field not_white_space by auto
  have r: "\<exists>m'. r = 92 # m'" "8711 \<notin> set r"
    using oper field by (auto simp: r_def vec_to_def asc_def)
  then obtain m' where m': "r = 92 # m'" by blast
  have over: "replace False (nabla_rx o' f') t (x @ r @ y) =
      replace False (nabla_rx o' f') t x @ r @ replace False (nabla_rx o' f') t y"
    if "o' = 46 \<or> o' = 215" "f' = 69 \<or> f' = 66" for o' f' t x y
    using that not_white_space by (intro pass_over_text [OF _ _ _ _ m' r(2)]) auto
  have own: "replace False (nabla_rx oper field) (vec_to name letter) (x @ occ @ y) =
      replace False (nabla_rx oper field) (vec_to name letter) x @ r @
      replace False (nabla_rx oper field) (vec_to name letter) y" for x y
    unfolding r_def by (rule pass_rewrites_occurrence [OF nw ws occ_def])
  have other: "replace False (nabla_rx o' f') t (x @ occ @ y) =
      replace False (nabla_rx o' f') t x @ occ @ replace False (nabla_rx o' f') t y"
    if "o' = 46 \<or> o' = 215" "f' = 69 \<or> f' = 66" "\<not> (oper = o' \<and> field = f')" for o' f' t x y
    using that not_white_space nw
    by (intro pass_over_occurrence [OF _ _ _ _ ws _ _ _ _ _ occ_def]) auto
  from oper field consider
    "oper = 46" "name = ''cdot''" "field = 69" "letter = ''E''"
    | "oper = 46" "name = ''cdot''" "field = 66" "letter = ''B''"
    | "oper = 215" "name = ''times''" "field = 69" "letter = ''E''"
    | "oper = 215" "name = ''times''" "field = 66" "letter = ''B''"
    by auto
  then have "maxwell_rewrites (u @ occ @ v) = maxwell_rewrites u @ r @ maxwell_rewrites v"
  proof cases
    case 1
    show ?thesis
      unfolding maxwell_rewrites_eq
      using own [unfolded 1] by (simp add: over)
  next
    case 2
    show ?thesis
      unfolding maxwell_rewrites_eq
      using own [unfolded 2] by (simp add: over other 2)
  next
    case 3
    show ?thesis
      unfolding maxwell_rewrites_eq
      using own [unfolded 3] by (simp add: over other 3)
  next
    case 4
    show ?thesis
      unfolding maxwell_rewrites_eq
      using own [unfolded 4] by (simp add: over other 4)
  qed
  then show ?thesis by (simp add: occ_def r_def)
qed

section \<open>The structural patterns\<close>

lemma in_ranges_latin: "in_ranges [(65, 90), (97, 122)] = latin"
  by (rule ext) (simp add: latin_def upper_latin_def lower_latin_def)

lemma in_ranges_alnum: "in_ranges [(65, 90), (97, 122), (48, 57)] = alnum"
  by (rule ext) (auto simp: alnum_def upper_latin_def lower_latin_def digit_def)

lemma ms_letter_cls: "ms letter_cls False = step_char latin"
  by (simp add: letter_cls_def in_ranges_latin)

lemma ms_alnum_cls: "ms alnum_cls False = step_char alnum"
  by (simp add: alnum_cls_def in_ranges_alnum)

lemma take_run: "take (length s - length (dropWhile P s)) s = takeWhile P s"
proof -
  have "length (takeWhile P s) + length (dropWhile P s) = length s"
    by (metis length_append takeWhile_dropWhile_id)
  then have "length s - length (dropWhile P s) = length (takeWhile P s)" by simp
  then show ?thesis by (simp add: takeWhile_eq_take [symmetric])
qed

text \<open>\<open>([A-Za-z0-9]+)\<close> at the end of a pattern takes the longest run.\<close>

lemma ms_group_plus_alnum:
  assumes "alnum x"
  shows "\<exists>p' rest. ms (Group n (Plus alnum_cls)) False (p, x # r, cs) =
           (p', dropWhile alnum r, (n, x # takeWhile alnum r) # cs) # rest"
proof -
  from run_first [of r "length r" alnum "Some x" cs] obtain p' rest where
    i: "iter (step_char alnum) (length r) (Some x, r, cs) = (p', dropWhile alnum r, cs) # rest"
    by auto
  have "length (dropWhile alnum r) \<le> length r"
    by (rule length_dropWhile_le)
  then have "take (Suc (length r) - length (dropWhile alnum r)) (x # r) = x # takeWhile alnum r"
    by (simp add: Suc_diff_le take_run)
  with assms i show ?thesis
    by (simp add: ms_alnum_cls)
qed

lemma ms_group_plus_alnum_none:
  "\<not> alnum x \<Longrightarrow> ms (Group n (Plus alnum_cls)) False (p, x # r, cs) = []"
  "ms (Group n (Plus alnum_cls)) False (p, [], cs) = []"
  by (simp_all add: ms_alnum_cls)

text \<open>The subscript pattern.\<close>

lemma tri_cases:
  obtains a x r where "s = a # b # x # r" "A a" "alnum x" | "\<not> tri A b s"
  by (cases "(A, b, s)" rule: tri.cases) auto

lemma tri_shape: "tri A b s \<longleftrightarrow> (\<exists>a x r. s = a # b # x # r \<and> A a \<and> alnum x)"
  by (cases "(A, b, s)" rule: tri.cases) auto

lemma ms_subscript:
  "ms subscript_rx False (p, s, []) =
      (case s of [] \<Rightarrow> []
       | a # s1 \<Rightarrow> (case s1 of [] \<Rightarrow> []
          | y # r \<Rightarrow> if latin a \<and> y = 95
                     then ms (Group 2 (Plus alnum_cls)) False (Some 95, r, [(1, [a])]) else []))"
  by (simp add: subscript_rx_def ms_letter_cls split: list.splits)

lemma match_at_subscript_Some:
  assumes "latin a" and "alnum x"
  shows "\<exists>p'. match_at False subscript_rx p (a # 95 # x # r) =
           Some (p', dropWhile alnum r, [(2, x # takeWhile alnum r), (1, [a])])"
proof -
  from ms_group_plus_alnum [OF assms(2), of 2 "Some 95" r "[(1, [a])]"] obtain p' rest where
    "ms (Group 2 (Plus alnum_cls)) False (Some 95, x # r, [(1, [a])]) =
       (p', dropWhile alnum r, [(2, x # takeWhile alnum r), (1, [a])]) # rest" by auto
  then show ?thesis
    using assms(1) by (simp add: match_at_def ms_subscript)
qed

lemma match_at_subscript_None:
  assumes "\<not> tri latin 95 s"
  shows "match_at False subscript_rx p s = None"
proof -
  have "ms subscript_rx False (p, s, []) = []"
  proof (cases s)
    case Nil
    then show ?thesis by (simp only: ms_subscript list.case)
  next
    case s: (Cons a s1)
    show ?thesis
    proof (cases s1)
      case Nil
      with s show ?thesis by (simp only: ms_subscript list.case)
    next
      case s1: (Cons y r)
      show ?thesis
      proof (cases "latin a \<and> y = 95")
        case False
        with s s1 show ?thesis by (simp only: ms_subscript list.case if_False)
      next
        case True
        have "ms (Group 2 (Plus alnum_cls)) False (Some 95, r, [(1, [a])]) = []"
        proof (cases r)
          case Nil
          then show ?thesis by (simp only: ms_group_plus_alnum_none)
        next
          case (Cons x r')
          with assms s s1 True have "\<not> alnum x" by simp
          then show ?thesis unfolding Cons by (rule ms_group_plus_alnum_none)
        qed
        with s s1 True show ?thesis by (simp add: ms_subscript del: ms.simps)
      qed
    qed
  qed
  then show ?thesis by (simp add: match_at_def)
qed


text \<open>The superscript pattern.\<close>

lemma ms_superscript:
  "ms superscript_rx False (p, s, []) =
      (case s of [] \<Rightarrow> []
       | a # s1 \<Rightarrow> (case s1 of [] \<Rightarrow> []
          | y # r \<Rightarrow> if alnum a \<and> y = 94
                     then ms (Group 3 (Plus alnum_cls)) False (Some 94, r, [(2, [94]), (1, [a])]) else []))"
  by (simp add: superscript_rx_def ms_alnum_cls split: list.splits)

lemma match_at_superscript_Some:
  assumes "alnum a" and "alnum x"
  shows "\<exists>p'. match_at False superscript_rx p (a # 94 # x # r) =
           Some (p', dropWhile alnum r, [(3, x # takeWhile alnum r), (2, [94]), (1, [a])])"
proof -
  from ms_group_plus_alnum [OF assms(2), of 3 "Some 94" r "[(2, [94]), (1, [a])]"] obtain p' rest where
    "ms (Group 3 (Plus alnum_cls)) False (Some 94, x # r, [(2, [94]), (1, [a])]) =
       (p', dropWhile alnum r, [(3, x # takeWhile alnum r), (2, [94]), (1, [a])]) # rest" by auto
  then show ?thesis
    using assms(1) by (simp add: match_at_def ms_superscript)
qed

lemma match_at_superscript_None:
  assumes "\<not> tri alnum 94 s"
  shows "match_at False superscript_rx p s = None"
proof -
  have "ms superscript_rx False (p, s, []) = []"
  proof (cases s)
    case Nil
    then show ?thesis by (simp only: ms_superscript list.case)
  next
    case s: (Cons a s1)
    show ?thesis
    proof (cases s1)
      case Nil
      with s show ?thesis by (simp only: ms_superscript list.case)
    next
      case s1: (Cons y r)
      show ?thesis
      proof (cases "alnum a \<and> y = 94")
        case False
        with s s1 show ?thesis by (simp only: ms_superscript list.case if_False)
      next
        case True
        have "ms (Group 3 (Plus alnum_cls)) False (Some 94, r, [(2, [94]), (1, [a])]) = []"
        proof (cases r)
          case Nil
          then show ?thesis by (simp only: ms_group_plus_alnum_none)
        next
          case (Cons x r')
          with assms s s1 True have "\<not> alnum x" by simp
          then show ?thesis unfolding Cons by (rule ms_group_plus_alnum_none)
        qed
        with s s1 True show ?thesis by (simp add: ms_superscript del: ms.simps)
      qed
    qed
  qed
  then show ?thesis by (simp add: match_at_def)
qed

text \<open>The fraction pattern: after the numerator only the end of the whole run can be followed by the slash.\<close>

lemma not_alnum_specials: "\<not> alnum 47" "\<not> alnum 92" "\<not> alnum 94" "\<not> alnum 95" "\<not> alnum 123" "\<not> alnum 125"
  by (simp_all add: alnum_def upper_latin_def lower_latin_def digit_def)

lemma ms_fraction:
  assumes "alnum x"
  shows "ms fraction_rx False (p, x # r, []) =
           (case dropWhile alnum r of [] \<Rightarrow> []
            | y # r2 \<Rightarrow> if y = 47
                then ms (Group 2 (Plus alnum_cls)) False (Some 47, r2, [(1, x # takeWhile alnum r)]) else [])"
proof -
  let ?st = "(p, x # r, [])"
  let ?b = "Seq (Lit 47) (Group 2 (Plus alnum_cls))"
  let ?g = "\<lambda>st. ms ?b False (capture 1 ?st st)"
  have "?g (p', y # r', cs') = []" if "alnum y" for p' y r' cs'
    using that not_alnum_specials(1) by (auto simp del: ms.simps simp add: seq_lit_Cons)
  from run_then [of alnum ?g r "length r" "Some x" "[]", OF this]
  obtain p' where p': "concat (map ?g (iter (step_char alnum) (length r) (Some x, r, [])))
      = ?g (p', dropWhile alnum r, [])" by auto
  have "length (dropWhile alnum r) \<le> length r"
    by (rule length_dropWhile_le)
  then have "take (Suc (length r) - length (dropWhile alnum r)) (x # r) = x # takeWhile alnum r"
    by (simp add: Suc_diff_le take_run)
  then have g: "?g (p', dropWhile alnum r, []) =
      ms ?b False (p', dropWhile alnum r, [(1, x # takeWhile alnum r)])"
    by (simp del: ms.simps)
  have "ms fraction_rx False ?st = concat (map ?g (iter (step_char alnum) (length r) (Some x, r, [])))"
    using assms by (simp add: fraction_rx_def ms_alnum_cls map_concat comp_def del: capture.simps)
  also note p'
  also note g
  also have "ms ?b False (p', dropWhile alnum r, [(1, x # takeWhile alnum r)]) =
      (case dropWhile alnum r of [] \<Rightarrow> []
       | y # r2 \<Rightarrow> if y = 47
           then ms (Group 2 (Plus alnum_cls)) False (Some 47, r2, [(1, x # takeWhile alnum r)]) else [])"
  proof (cases "dropWhile alnum r")
    case Nil
    show ?thesis unfolding Nil by (simp only: seq_lit_Nil list.case)
  next
    case (Cons y r2)
    show ?thesis unfolding Cons by (simp only: seq_lit_Cons list.case)
  qed
  finally show ?thesis .
qed

lemma ms_fraction_none:
  "ms fraction_rx False (p, [], []) = []"
  "\<not> alnum x \<Longrightarrow> ms fraction_rx False (p, x # r, []) = []"
  by (simp_all add: fraction_rx_def ms_alnum_cls)

lemma frac_head_shape:
  "frac_head s \<longleftrightarrow>
     (\<exists>x r x2 r3. s = x # r \<and> alnum x \<and> dropWhile alnum r = 47 # x2 # r3 \<and> alnum x2)"
proof (cases s)
  case Nil
  then show ?thesis by (simp add: frac_head_def)
next
  case (Cons x r)
  show ?thesis
  proof (cases "alnum x")
    case False
    then show ?thesis by (simp add: frac_head_def Cons)
  next
    case True
    then have "frac_head s \<longleftrightarrow> (case dropWhile alnum r of y # x2 # r3 \<Rightarrow> y = 47 \<and> alnum x2 | _ \<Rightarrow> False)"
      by (simp add: frac_head_def Cons)
    also have "\<dots> \<longleftrightarrow> (\<exists>x2 r3. dropWhile alnum r = 47 # x2 # r3 \<and> alnum x2)"
    proof (cases "dropWhile alnum r")
      case Nil
      show ?thesis unfolding Nil by simp
    next
      case d: (Cons y r2)
      show ?thesis unfolding d by (cases r2) auto
    qed
    finally show ?thesis using True by (simp add: Cons)
  qed
qed

lemma match_at_fraction_Some:
  assumes "alnum x" and "dropWhile alnum r = 47 # x2 # r3" and "alnum x2"
  shows "\<exists>p'. match_at False fraction_rx p (x # r) =
           Some (p', dropWhile alnum r3, [(2, x2 # takeWhile alnum r3), (1, x # takeWhile alnum r)])"
proof -
  from ms_fraction [OF assms(1), of p r] assms(2)
  have "ms fraction_rx False (p, x # r, []) =
      ms (Group 2 (Plus alnum_cls)) False (Some 47, x2 # r3, [(1, x # takeWhile alnum r)])"
    by (auto simp del: ms.simps)
  with ms_group_plus_alnum [OF assms(3), of 2 "Some 47" r3 "[(1, x # takeWhile alnum r)]"]
  show ?thesis
    by (auto simp: match_at_def simp del: ms.simps)
qed

lemma match_at_fraction_None:
  assumes "\<not> frac_head s"
  shows "match_at False fraction_rx p s = None"
proof -
  have "ms fraction_rx False (p, s, []) = []"
  proof (cases s)
    case Nil
    then show ?thesis by (simp only: ms_fraction_none)
  next
    case (Cons x r)
    show ?thesis
    proof (cases "alnum x")
      case False
      then show ?thesis unfolding Cons by (rule ms_fraction_none)
    next
      case True
      from ms_fraction [OF True, of p r] have
        m: "ms fraction_rx False (p, x # r, []) =
           (case dropWhile alnum r of [] \<Rightarrow> []
            | y # r2 \<Rightarrow> if y = 47
                then ms (Group 2 (Plus alnum_cls)) False (Some 47, r2, [(1, x # takeWhile alnum r)]) else [])" .
      show ?thesis
      proof (cases "dropWhile alnum r")
        case Nil
        with m show ?thesis by (simp add: Cons del: ms.simps)
      next
        case d: (Cons y r2)
        show ?thesis
        proof (cases "y = 47")
          case False
          with m d show ?thesis by (simp add: Cons del: ms.simps)
        next
          case y: True
          have "ms (Group 2 (Plus alnum_cls)) False (Some 47, r2, [(1, x # takeWhile alnum r)]) = []"
          proof (cases r2)
            case Nil
            then show ?thesis by (simp only: ms_group_plus_alnum_none)
          next
            case r2: (Cons x2 r3)
            have "\<not> alnum x2"
              using assms True d y r2 by (auto simp: frac_head_shape Cons)
            then show ?thesis unfolding r2 by (rule ms_group_plus_alnum_none)
          qed
          with m d y show ?thesis by (simp add: Cons del: ms.simps)
        qed
      qed
    qed
  qed
  then show ?thesis by (simp add: match_at_def)
qed

section \<open>The structural passes as scans\<close>

text \<open>
  The subscript and the superscript pass: a triple of a letter (or a letter or digit),
  the operator and a letter or digit gets braces around the longest run behind the
  operator; any other code unit is copied.
\<close>

lemma brace_Nil:
  assumes "(rx, to, A, b :: cu) \<in> {(subscript_rx, subscript_to, latin, 95), (superscript_rx, superscript_to, alnum, 94)}"
  shows "replace_from False rx to p [] = []"
  using assms
  by (auto simp: replace_from_Nil_None match_at_subscript_None match_at_superscript_None)

lemma brace_copy:
  assumes "(rx, to, A, b :: cu) \<in> {(subscript_rx, subscript_to, latin, 95), (superscript_rx, superscript_to, alnum, 94)}"
    and "\<not> tri A b (c # s)"
  shows "replace_from False rx to p (c # s) = c # replace_from False rx to (Some c) s"
  using assms
  by (auto simp: replace_from_Cons_None match_at_subscript_None match_at_superscript_None)

lemma brace_match:
  assumes "(rx, to, A, b :: cu) \<in> {(subscript_rx, subscript_to, latin, 95), (superscript_rx, superscript_to, alnum, 94)}"
    and "A a" and "alnum x"
  shows "\<exists>p'. replace_from False rx to p (a # b # x # r) =
           a # b # 123 # x # takeWhile alnum r @ 125 # replace_from False rx to p' (dropWhile alnum r)"
proof -
  have l: "length (dropWhile alnum r) < length (a # b # x # r)"
    using length_dropWhile_le [of alnum r] by simp
  from assms(1) consider "rx = subscript_rx" "to = subscript_to" "A = latin" "b = 95"
    | "rx = superscript_rx" "to = superscript_to" "A = alnum" "b = 94"
    by auto
  then show ?thesis
  proof cases
    case 1
    from match_at_subscript_Some [of a x p r] assms(2,3) 1 obtain p' where
      "match_at False subscript_rx p (a # 95 # x # r) =
         Some (p', dropWhile alnum r, [(2, x # takeWhile alnum r), (1, [a])])" by auto
    from replace_from_Some_shorter [OF this l [unfolded 1], of subscript_to] show ?thesis
      by (auto simp: 1 subscript_to_def asc_def)
  next
    case 2
    from match_at_superscript_Some [of a x p r] assms(2,3) 2 obtain p' where
      "match_at False superscript_rx p (a # 94 # x # r) =
         Some (p', dropWhile alnum r, [(3, x # takeWhile alnum r), (2, [94]), (1, [a])])" by auto
    from replace_from_Some_shorter [OF this l [unfolded 2], of superscript_to] show ?thesis
      by (auto simp: 2 superscript_to_def asc_def)
  qed
qed

text \<open>The fraction pass.\<close>

lemma frac_Nil: "replace_from False fraction_rx fraction_to p [] = []"
  by (simp add: replace_from_Nil_None match_at_fraction_None frac_head_def)

lemma frac_copy:
  "\<not> frac_head (c # s) \<Longrightarrow>
   replace_from False fraction_rx fraction_to p (c # s) = c # replace_from False fraction_rx fraction_to (Some c) s"
  by (simp add: replace_from_Cons_None match_at_fraction_None)

lemma frac_match:
  assumes "alnum x" and "dropWhile alnum r = 47 # x2 # r3" and "alnum x2"
  shows "\<exists>p'. replace_from False fraction_rx fraction_to p (x # r) =
           92 # asc ''frac{'' @ x # takeWhile alnum r @ asc ''}{'' @ x2 # takeWhile alnum r3 @ asc ''}''
           @ replace_from False fraction_rx fraction_to p' (dropWhile alnum r3)"
proof -
  have "length (dropWhile alnum r3) \<le> length r3" by (rule length_dropWhile_le)
  moreover have "length (dropWhile alnum r) \<le> length r" by (rule length_dropWhile_le)
  ultimately have l: "length (dropWhile alnum r3) < length (x # r)"
    using assms(2) by simp
  from match_at_fraction_Some [OF assms, of p] obtain p' where
    "match_at False fraction_rx p (x # r) =
       Some (p', dropWhile alnum r3, [(2, x2 # takeWhile alnum r3), (1, x # takeWhile alnum r)])" by auto
  from replace_from_Some_shorter [OF this l, of fraction_to] show ?thesis
    by (auto simp: fraction_to_def asc_def)
qed

section \<open>Triples that a structural pattern could match\<close>

lemma has_tri_suffix: "suffix s' s \<Longrightarrow> has_tri A b s' \<Longrightarrow> has_tri A b s"
  by (induction s) (auto simp: suffix_Cons)

lemma has_tri_first:
  assumes "\<And>c. A c \<Longrightarrow> alnum c" and "\<not> alnum a"
  shows "has_tri A b (a # r) = has_tri A b r"
  using assms by (cases "(A, b, a # r)" rule: tri.cases) auto

lemma has_tri_second: "y \<noteq> b \<Longrightarrow> has_tri A b (a # y # r) = has_tri A b (y # r)"
  by (cases r) auto

lemma has_tri_third: "\<not> alnum z \<Longrightarrow> has_tri A b (a # y # z # r) = has_tri A b (y # z # r)"
  by simp

lemma has_tri_run:
  assumes "\<And>c. A c \<Longrightarrow> alnum c" and "\<not> alnum b" and "b \<noteq> 125" and "\<forall>c \<in> set w. alnum c"
  shows "has_tri A b (w @ 125 # r) = has_tri A b r"
  using assms(4)
proof (induction w)
  case Nil
  show ?case unfolding append_Nil
    by (rule has_tri_first [OF assms(1) not_alnum_specials(6)])
next
  case (Cons c w)
  have "has_tri A b (c # w @ 125 # r) = has_tri A b (w @ 125 # r)"
  proof (cases w)
    case Nil
    then show ?thesis using assms(3) by (simp add: has_tri_second del: has_tri.simps)
  next
    case (Cons y w')
    with Cons.prems assms(2) have "y \<noteq> b" by auto
    then show ?thesis unfolding Cons by (simp add: has_tri_second del: has_tri.simps)
  qed
  with Cons show ?case by simp
qed


lemma tri_has_tri: "tri A b s \<Longrightarrow> has_tri A b s"
  by (cases s) auto

text \<open>The subscript and the superscript pass keep the first two code units.\<close>

lemma brace_take1:
  assumes "(rx, to, A, b :: cu) \<in> {(subscript_rx, subscript_to, latin, 95), (superscript_rx, superscript_to, alnum, 94)}"
  shows "take 1 (replace_from False rx to p s) = take 1 s"
proof (cases s)
  case Nil
  then show ?thesis by (simp add: brace_Nil [OF assms])
next
  case (Cons c s')
  show ?thesis
  proof (cases "tri A b s")
    case True
    then obtain a x r where s: "s = a # b # x # r" and "A a" "alnum x"
      by (auto simp: tri_shape)
    with brace_match [OF assms, of a x p r] show ?thesis by auto
  next
    case False
    then show ?thesis
      unfolding Cons by (simp add: brace_copy [OF assms])
  qed
qed

lemma brace_take2:
  assumes "(rx, to, A, b :: cu) \<in> {(subscript_rx, subscript_to, latin, 95), (superscript_rx, superscript_to, alnum, 94)}"
  shows "take 2 (replace_from False rx to p s) = take 2 s"
proof (cases s)
  case Nil
  then show ?thesis by (simp add: brace_Nil [OF assms])
next
  case (Cons c s')
  show ?thesis
  proof (cases "tri A b s")
    case True
    then obtain a x r where s: "s = a # b # x # r" and "A a" "alnum x"
      by (auto simp: tri_shape)
    with brace_match [OF assms, of a x p r] show ?thesis by auto
  next
    case False
    have "take 2 (c # replace_from False rx to (Some c) s') = c # take 1 (replace_from False rx to (Some c) s')"
      by (simp add: numeral_2_eq_2)
    also have "\<dots> = c # take 1 s'" by (simp only: brace_take1 [OF assms])
    also have "\<dots> = take 2 (c # s')" by (simp add: numeral_2_eq_2)
    finally show ?thesis
      using False unfolding Cons by (simp add: brace_copy [OF assms])
  qed
qed

text \<open>
  The subscript and the superscript pass leave no triple of their own, and make no
  triple of another pattern.
\<close>

lemma brace_free:
  assumes br: "(rx, to, A, b :: cu) \<in> {(subscript_rx, subscript_to, latin, 95), (superscript_rx, superscript_to, alnum, 94)}"
    and A': "\<And>c. A' c \<Longrightarrow> alnum c" and b': "b' \<in> {95, 94, 47}"
    and "(A' = A \<and> b' = b) \<or> \<not> has_tri A' b' s"
  shows "\<not> has_tri A' b' (replace_from False rx to p s)"
  using assms(4)
proof (induction "length s" arbitrary: s p rule: less_induct)
  case less
  have nb: "\<not> alnum b" "\<not> alnum b'" "b' \<noteq> 125"
    using br b' not_alnum_specials by auto
  show ?case
  proof (cases s)
    case Nil
    then show ?thesis by (simp add: brace_Nil [OF br])
  next
    case (Cons c s')
    show ?thesis
    proof (cases "tri A b s")
      case True
      then obtain a x r where s: "s = a # b # x # r" and ax: "A a" "alnum x"
        by (auto simp: tri_shape)
      from brace_match [OF br ax, of p r] obtain p' where
        out: "replace_from False rx to p s =
           a # b # 123 # x # takeWhile alnum r @ 125 # replace_from False rx to p' (dropWhile alnum r)"
        unfolding s by blast
      let ?out' = "replace_from False rx to p' (dropWhile alnum r)"
      have suf: "suffix (dropWhile alnum r) s"
        unfolding s by (intro suffix_ConsI suffix_dropWhile)
      have "length (dropWhile alnum r) < length s"
        using length_dropWhile_le [of alnum r] by (simp add: s)
      moreover have "(A' = A \<and> b' = b) \<or> \<not> has_tri A' b' (dropWhile alnum r)"
        using less.prems has_tri_suffix [OF suf] by blast
      ultimately have ih: "\<not> has_tri A' b' ?out'" by (rule less.hyps)
      have w: "\<forall>c \<in> set (x # takeWhile alnum r). alnum c"
        using ax(2) by (auto dest: set_takeWhileD)
      have "has_tri A' b' (a # b # 123 # (x # takeWhile alnum r) @ 125 # ?out')
          = has_tri A' b' (b # 123 # (x # takeWhile alnum r) @ 125 # ?out')"
        using not_alnum_specials(5) by (rule has_tri_third)
      also have "\<dots> = has_tri A' b' (123 # (x # takeWhile alnum r) @ 125 # ?out')"
        using A' nb(1) by (rule has_tri_first)
      also have "\<dots> = has_tri A' b' ((x # takeWhile alnum r) @ 125 # ?out')"
        using A' not_alnum_specials(5) by (rule has_tri_first)
      also have "\<dots> = has_tri A' b' ?out'"
        using A' nb(2,3) w by (rule has_tri_run)
      finally show ?thesis using ih by (simp add: out)
    next
      case False
      let ?out' = "replace_from False rx to (Some c) s'"
      have out: "replace_from False rx to p s = c # ?out'"
        using False unfolding Cons by (rule brace_copy [OF br])
      have "(A' = A \<and> b' = b) \<or> \<not> has_tri A' b' s'"
        using less.prems by (auto simp: Cons)
      then have ih: "\<not> has_tri A' b' ?out'"
        by (intro less.hyps) (simp add: Cons)
      have "\<not> tri A' b' (c # ?out')"
      proof
        assume t: "tri A' b' (c # ?out')"
        then obtain x u where o: "?out' = b' # x # u" and cx: "A' c" "alnum x"
          by (auto simp: tri_shape)
        have "take 2 s' = take 2 ?out'" by (simp only: brace_take2 [OF br])
        also have "\<dots> = [b', x]" by (simp add: o)
        finally obtain u' where "s' = b' # x # u'"
          by (cases s'; cases "tl s'") (auto simp: numeral_2_eq_2)
        with cx have "tri A' b' s" by (simp add: Cons)
        with less.prems False show False by (auto dest: tri_has_tri)
      qed
      with ih show ?thesis by (simp add: out)
    qed
  qed
qed


text \<open>The fraction pass writes a backslash where it matches and copies elsewhere.\<close>

lemma frac_first:
  assumes "replace_from False fraction_rx fraction_to p s = y # t" and "y \<noteq> 92"
  shows "\<exists>s'. s = y # s' \<and> \<not> frac_head s \<and> t = replace_from False fraction_rx fraction_to (Some y) s'"
proof (cases s)
  case Nil
  with assms(1) show ?thesis by (simp add: frac_Nil)
next
  case (Cons c s')
  show ?thesis
  proof (cases "frac_head s")
    case True
    then obtain x r x2 r3 where "s = x # r" "alnum x" "dropWhile alnum r = 47 # x2 # r3" "alnum x2"
      unfolding frac_head_shape by blast
    with frac_match [of x r x2 r3 p] assms show ?thesis by auto
  next
    case False
    with assms(1) show ?thesis
      unfolding Cons by (auto simp: frac_copy)
  qed
qed

lemma frac_free:
  assumes A': "\<And>c. A' c \<Longrightarrow> alnum c" and b': "b' \<in> {95, 94, 47}"
    and "(A' = alnum \<and> b' = 47) \<or> \<not> has_tri A' b' s"
  shows "\<not> has_tri A' b' (replace_from False fraction_rx fraction_to p s)"
  using assms(3)
proof (induction "length s" arbitrary: s p rule: less_induct)
  case less
  let ?R = "replace_from False fraction_rx fraction_to"
  have nb: "\<not> alnum b'" "b' \<noteq> 125" "123 \<noteq> b'" "b' \<noteq> 92" "114 \<noteq> b'" "97 \<noteq> b'" "99 \<noteq> b'"
    using b' not_alnum_specials by auto
  show ?case
  proof (cases s)
    case Nil
    then show ?thesis by (simp add: frac_Nil)
  next
    case (Cons c s')
    show ?thesis
    proof (cases "frac_head s")
      case True
      then obtain x r x2 r3 where s: "s = x # r" and x: "alnum x"
        and d: "dropWhile alnum r = 47 # x2 # r3" and x2: "alnum x2"
        unfolding frac_head_shape by blast
      from frac_match [OF x d x2, of p] obtain p' where
        out: "?R p s = 92 # asc ''frac{'' @ x # takeWhile alnum r @ asc ''}{'' @ x2 # takeWhile alnum r3
              @ asc ''}'' @ ?R p' (dropWhile alnum r3)"
        unfolding s by blast
      let ?out' = "?R p' (dropWhile alnum r3)"
      have "suffix (dropWhile alnum r3) r3" by (rule suffix_dropWhile)
      then have "suffix (dropWhile alnum r3) (dropWhile alnum r)"
        unfolding d by (intro suffix_ConsI)
      then have suf: "suffix (dropWhile alnum r3) s"
        unfolding s using suffix_dropWhile [of alnum r] by (meson suffix_ConsI suffix_order.trans)
      have "length (dropWhile alnum r3) \<le> length r3" by (rule length_dropWhile_le)
      moreover have "length (dropWhile alnum r) \<le> length r" by (rule length_dropWhile_le)
      ultimately have "length (dropWhile alnum r3) < length s"
        by (simp add: d s)
      moreover have "(A' = alnum \<and> b' = 47) \<or> \<not> has_tri A' b' (dropWhile alnum r3)"
        using less.prems has_tri_suffix [OF suf] by blast
      ultimately have ih: "\<not> has_tri A' b' ?out'" by (rule less.hyps)
      have w1: "\<forall>c \<in> set (x # takeWhile alnum r). alnum c"
        using x by (auto dest: set_takeWhileD)
      have w2: "\<forall>c \<in> set (x2 # takeWhile alnum r3). alnum c"
        using x2 by (auto dest: set_takeWhileD)
      let ?d = "(x2 # takeWhile alnum r3) @ 125 # ?out'"
      let ?n = "(x # takeWhile alnum r) @ 125 # 123 # ?d"
      have "?R p s = 92 # 102 # 114 # 97 # 99 # 123 # ?n"
        by (simp add: out asc_def)
      also have "has_tri A' b' (92 # 102 # 114 # 97 # 99 # 123 # ?n) = has_tri A' b' (102 # 114 # 97 # 99 # 123 # ?n)"
        using A' not_alnum_specials(2) by (rule has_tri_first)
      also have "\<dots> = has_tri A' b' (114 # 97 # 99 # 123 # ?n)"
        using nb(5) by (rule has_tri_second)
      also have "\<dots> = has_tri A' b' (97 # 99 # 123 # ?n)"
        using nb(6) by (rule has_tri_second)
      also have "\<dots> = has_tri A' b' (99 # 123 # ?n)"
        using nb(7) by (rule has_tri_second)
      also have "\<dots> = has_tri A' b' (123 # ?n)"
        using nb(3) by (rule has_tri_second)
      also have "\<dots> = has_tri A' b' ?n"
        using A' not_alnum_specials(5) by (rule has_tri_first)
      also have "\<dots> = has_tri A' b' (123 # ?d)"
        using A' nb(1,2) w1 by (rule has_tri_run)
      also have "\<dots> = has_tri A' b' ?d"
        using A' not_alnum_specials(5) by (rule has_tri_first)
      also have "\<dots> = has_tri A' b' ?out'"
        using A' nb(1,2) w2 by (rule has_tri_run)
      finally show ?thesis using ih by simp
    next
      case False
      let ?out' = "?R (Some c) s'"
      have out: "?R p s = c # ?out'"
        using False unfolding Cons by (rule frac_copy)
      have "(A' = alnum \<and> b' = 47) \<or> \<not> has_tri A' b' s'"
        using less.prems by (auto simp: Cons)
      then have ih: "\<not> has_tri A' b' ?out'"
        by (intro less.hyps) (simp add: Cons)
      have "\<not> tri A' b' (c # ?out')"
      proof
        assume t: "tri A' b' (c # ?out')"
        then obtain x u where o: "?out' = b' # x # u" and cx: "A' c" "alnum x"
          by (auto simp: tri_shape)
        from frac_first [OF o nb(4)] obtain s'' where s': "s' = b' # s''"
          and u: "x # u = ?R (Some b') s''" by blast
        have "x \<noteq> 92" using cx(2) not_alnum_specials(2) by auto
        from frac_first [OF u [symmetric] this] obtain s3 where s'': "s'' = x # s3" by blast
        have tr: "tri A' b' s" using cx by (simp add: Cons s' s'')
        show False
        proof (cases "A' = alnum \<and> b' = 47")
          case True
          have "dropWhile alnum s' = 47 # x # s3"
            using True not_alnum_specials(1) by (simp add: s' s'')
          with cx True have "frac_head s"
            unfolding frac_head_shape Cons by blast
          with False show False ..
        next
          case False
          with less.prems tr show False by (auto dest: tri_has_tri)
        qed
      qed
      with ih show ?thesis by (simp add: out)
    qed
  qed
qed


section \<open>A second run of the structural passes\<close>

lemma frac_head_has_tri:
  assumes "frac_head s"
  shows "has_tri alnum 47 s"
proof -
  from assms obtain x r x2 r3 where s: "s = x # r" and x: "alnum x"
    and d: "dropWhile alnum r = 47 # x2 # r3" and x2: "alnum x2"
    unfolding frac_head_shape by blast
  have "has_tri alnum 47 (w @ 47 # x2 # r3)" if "w \<noteq> []" "\<forall>c \<in> set w. alnum c" for w
    using that
  proof (induction w)
    case Nil
    then show ?case by simp
  next
    case (Cons a w)
    show ?case
    proof (cases w)
      case Nil
      with Cons.prems x2 show ?thesis by simp
    next
      case (Cons b w')
      with Cons.IH Cons.prems show ?thesis by simp
    qed
  qed
  from this [of "x # takeWhile alnum r"] x have "has_tri alnum 47 (x # takeWhile alnum r @ dropWhile alnum r)"
    by (auto simp: d dest: set_takeWhileD simp del: has_tri.simps)
  then show ?thesis by (simp add: s)
qed

lemma no_tri_unchanged:
  assumes "(rx, to, A, b :: cu) \<in> {(subscript_rx, subscript_to, latin, 95), (superscript_rx, superscript_to, alnum, 94)}"
    and "\<not> has_tri A b s"
  shows "replace False rx to s = s"
proof (rule replace_no_match)
  fix p' s' assume "suffix s' s"
  with assms(2) have "\<not> tri A b s'"
    by (auto dest: tri_has_tri has_tri_suffix)
  with assms(1) show "match_at False rx p' s' = None"
    by (auto simp: match_at_subscript_None match_at_superscript_None)
qed

lemma no_frac_unchanged:
  assumes "\<not> has_tri alnum 47 s"
  shows "replace False fraction_rx fraction_to s = s"
proof (rule replace_no_match)
  fix p' s' assume "suffix s' s"
  with assms have "\<not> frac_head s'"
    by (auto dest: frac_head_has_tri has_tri_suffix)
  then show "match_at False fraction_rx p' s' = None"
    by (rule match_at_fraction_None)
qed

text \<open>After the three structural passes none of their patterns matches anywhere.\<close>

lemma structural_passes_free:
  "\<not> has_tri latin 95 (structural_passes s)"
  "\<not> has_tri alnum 94 (structural_passes s)"
  "\<not> has_tri alnum 47 (structural_passes s)"
proof -
  let ?s1 = "replace False subscript_rx subscript_to s"
  let ?s2 = "replace False superscript_rx superscript_to ?s1"
  have la: "\<And>c. latin c \<Longrightarrow> alnum c" by (auto simp: latin_def alnum_def)
  have 1: "\<not> has_tri latin 95 ?s1"
    unfolding replace_def by (rule brace_free [where A = latin and b = 95]) (simp_all add: la)
  have 2: "\<not> has_tri latin 95 ?s2"
    unfolding replace_def [of _ superscript_rx]
    by (rule brace_free [where A = alnum and b = 94]) (simp_all add: la 1)
  show "\<not> has_tri latin 95 (structural_passes s)"
    unfolding structural_passes_eq replace_def [of _ fraction_rx]
    by (rule frac_free) (simp_all add: la 2)
  have 3: "\<not> has_tri alnum 94 ?s2"
    unfolding replace_def [of _ superscript_rx]
    by (rule brace_free [where A = alnum and b = 94]) simp_all
  show "\<not> has_tri alnum 94 (structural_passes s)"
    unfolding structural_passes_eq replace_def [of _ fraction_rx]
    by (rule frac_free) (simp_all add: 3)
  show "\<not> has_tri alnum 47 (structural_passes s)"
    unfolding structural_passes_eq replace_def [of _ fraction_rx]
    by (rule frac_free) simp_all
qed

lemma structural_passes_idem: "structural_passes (structural_passes s) = structural_passes s"
proof -
  let ?t = "structural_passes s"
  have "replace False subscript_rx subscript_to ?t = ?t"
    by (rule no_tri_unchanged [where A = latin and b = 95]) (simp_all add: structural_passes_free)
  moreover have "replace False superscript_rx superscript_to ?t = ?t"
    by (rule no_tri_unchanged [where A = alnum and b = 94]) (simp_all add: structural_passes_free)
  moreover have "replace False fraction_rx fraction_to ?t = ?t"
    by (rule no_frac_unchanged) (rule structural_passes_free)
  ultimately show ?thesis
    by (simp add: structural_passes_eq [of ?t])
qed

section \<open>Greek letter names under the structural passes\<close>

lemma canonicalize_latin:
  assumes "latin c" and "canonicalize z = canonicalize c"
  shows "latin z"
proof -
  have "upper_latin (canonicalize c)"
    using assms(1) by (auto simp: latin_def canonicalize_def upper_latin_def lower_latin_def)
  then have "upper_latin (canonicalize z)" by (simp add: assms(2))
  then show ?thesis
    by (auto simp: latin_def canonicalize_def upper_latin_def lower_latin_def split: if_splits)
qed

lemma includes_ci_Nil [simp]: "includes_ci [] t \<longleftrightarrow> t = []"
  by (simp add: includes_ci_def)

lemma includes_ci_appendI: "includes_ci a t \<or> includes_ci b t \<Longrightarrow> includes_ci (a @ b) t"
  by (auto simp: includes_ci_def sublist_append)

lemma includes_ci_ConsI: "includes_ci s t \<Longrightarrow> includes_ci (c # s) t"
  by (simp add: includes_ci_def sublist_Cons_right)

text \<open>A name, all letters, cannot reach across a code unit that is not a letter.\<close>

lemma includes_ci_separator:
  assumes "t \<noteq> []" and "\<forall>c \<in> set t. latin c" and "\<not> latin z"
  shows "includes_ci (a @ z # b) t \<longleftrightarrow> includes_ci a t \<or> includes_ci b t"
proof
  let ?N = "map canonicalize t" and ?A = "map canonicalize a" and ?B = "map canonicalize b"
  have z: "canonicalize z \<notin> set ?N"
    using assms(2,3) canonicalize_latin by fastforce
  have np: "\<not> prefix xs (canonicalize z # ?B)" if "xs \<noteq> []" "set xs \<subseteq> set ?N" for xs
  proof (cases xs)
    case Nil
    with that show ?thesis by simp
  next
    case (Cons y ys)
    with that(2) have "y \<in> set ?N" by simp
    with z have "y \<noteq> canonicalize z" by blast
    then show ?thesis by (simp add: Cons)
  qed
  assume "includes_ci (a @ z # b) t"
  then have "sublist ?N (?A @ canonicalize z # ?B)" by (simp add: includes_ci_def)
  then consider "sublist ?N ?A" | "sublist ?N (canonicalize z # ?B)"
    | xs1 xs2 where "?N = xs1 @ xs2" "suffix xs1 ?A" "prefix xs2 (canonicalize z # ?B)"
    unfolding sublist_append by blast
  then show "includes_ci a t \<or> includes_ci b t"
  proof cases
    case 1
    then show ?thesis by (simp add: includes_ci_def)
  next
    case 2
    moreover have "\<not> prefix ?N (canonicalize z # ?B)"
      using assms(1) by (intro np) auto
    ultimately show ?thesis by (simp add: includes_ci_def sublist_Cons_right)
  next
    case 3
    have "xs2 = []"
    proof (rule ccontr)
      assume "xs2 \<noteq> []"
      moreover have "set xs2 \<subseteq> set ?N" using 3(1) by (metis set_append sup_ge2)
      ultimately show False using np 3(3) by blast
    qed
    with 3 have "suffix ?N ?A" by simp
    then show ?thesis by (auto simp: includes_ci_def)
  qed
next
  assume "includes_ci a t \<or> includes_ci b t"
  then have "includes_ci a t \<or> includes_ci (z # b) t"
    by (auto intro: includes_ci_ConsI)
  then show "includes_ci (a @ z # b) t" by (rule includes_ci_appendI)
qed

text \<open>A name at the very head of a text lies within the letters the text begins with.\<close>

lemma name_at_head:
  assumes "\<forall>c \<in> set t. latin c" and "prefix (map canonicalize t) (map canonicalize u)"
    and "prefix (takeWhile latin u) s"
  shows "prefix (map canonicalize t) (map canonicalize s)"
proof -
  from assms(2) obtain v where v: "map canonicalize u = map canonicalize t @ v"
    by (auto simp: prefix_def)
  let ?k = "length t"
  have k: "map canonicalize (take ?k u) = map canonicalize t"
    using v by (metis append_eq_conv_conj length_map take_map)
  have "\<forall>y \<in> set (take ?k u). latin y"
  proof
    fix y assume "y \<in> set (take ?k u)"
    then have "canonicalize y \<in> set (map canonicalize t)"
      unfolding k [symmetric] by simp
    then obtain c where "c \<in> set t" "canonicalize y = canonicalize c" by auto
    with assms(1) show "latin y" by (auto intro: canonicalize_latin)
  qed
  then have "prefix (take ?k u) (takeWhile latin u)"
    by (metis append_take_drop_id prefix_def takeWhile_append2 takeWhile_eq_all_conv
        prefixI takeWhile_append)
  from this assms(3) have "prefix (take ?k u) s" by (rule prefix_order.trans)
  then have "prefix (map canonicalize (take ?k u)) (map canonicalize s)"
    by (rule map_mono_prefix)
  then show ?thesis by (simp only: k)
qed


lemma not_latin_specials: "\<not> latin 47" "\<not> latin 92" "\<not> latin 94" "\<not> latin 95" "\<not> latin 123" "\<not> latin 125"
  by (simp_all add: latin_def upper_latin_def lower_latin_def)

text \<open>The letters an output begins with are letters the input begins with.\<close>

lemma brace_letters:
  assumes br: "(rx, to, A, b :: cu) \<in> {(subscript_rx, subscript_to, latin, 95), (superscript_rx, superscript_to, alnum, 94)}"
  shows "prefix (takeWhile latin (replace_from False rx to p s)) s"
proof (induction s arbitrary: p)
  case Nil
  show ?case by (simp add: brace_Nil [OF br])
next
  case (Cons c s)
  have nb: "\<not> latin b" using br not_latin_specials by auto
  show ?case
  proof (cases "tri A b (c # s)")
    case True
    then obtain x r where s: "s = b # x # r" and ax: "A c" "alnum x"
      by (auto simp: tri_shape)
    from brace_match [OF br ax, of p r] nb show ?thesis
      by (auto simp: s)
  next
    case False
    then show ?thesis
      using Cons.IH [of "Some c"] by (simp add: brace_copy [OF br])
  qed
qed

lemma frac_letters: "prefix (takeWhile latin (replace_from False fraction_rx fraction_to p s)) s"
proof (induction s arbitrary: p)
  case Nil
  show ?case by (simp add: frac_Nil)
next
  case (Cons c s)
  show ?case
  proof (cases "frac_head (c # s)")
    case True
    then obtain x2 r3 where "alnum c" "dropWhile alnum s = 47 # x2 # r3" "alnum x2"
      unfolding frac_head_shape by blast
    from frac_match [OF this, of p] not_latin_specials(2) show ?thesis
      by auto
  next
    case False
    then show ?thesis
      using Cons.IH [of "Some c"] by (simp add: frac_copy)
  qed
qed

text \<open>The subscript and the superscript pass bring no name into the text.\<close>

lemma brace_names:
  assumes br: "(rx, to, A, b :: cu) \<in> {(subscript_rx, subscript_to, latin, 95), (superscript_rx, superscript_to, alnum, 94)}"
    and t: "t \<noteq> []" "\<forall>c \<in> set t. latin c"
  shows "includes_ci (replace_from False rx to p s) t \<Longrightarrow> includes_ci s t"
proof (induction "length s" arbitrary: s p rule: less_induct)
  case less
  have nb: "\<not> latin b" using br not_latin_specials by auto
  note sep = includes_ci_separator [OF t]
  show ?case
  proof (cases s)
    case Nil
    with less.prems show ?thesis by (simp add: brace_Nil [OF br])
  next
    case (Cons c s')
    show ?thesis
    proof (cases "tri A b s")
      case True
      then obtain x r where s: "s = c # b # x # r" and ax: "A c" "alnum x"
        by (auto simp: tri_shape Cons)
      from brace_match [OF br ax, of p r] obtain p' where
        out: "replace_from False rx to p s =
           [c] @ b # [] @ 123 # (x # takeWhile alnum r) @ 125 # replace_from False rx to p' (dropWhile alnum r)"
        unfolding s by auto
      let ?out' = "replace_from False rx to p' (dropWhile alnum r)"
      from less.prems have "includes_ci [c] t \<or> includes_ci (x # takeWhile alnum r) t \<or> includes_ci ?out' t"
        unfolding out sep [OF nb] sep [OF not_latin_specials(5)] sep [OF not_latin_specials(6)]
        using t(1) by simp
      moreover have "includes_ci (dropWhile alnum r) t" if "includes_ci ?out' t"
        using that by (rule less.hyps [rotated]) (use length_dropWhile_le [of alnum r] in \<open>simp add: s\<close>)
      moreover have "x # r = (x # takeWhile alnum r) @ dropWhile alnum r" by simp
      ultimately have "includes_ci [c] t \<or> includes_ci (x # r) t"
        by (metis includes_ci_appendI)
      then show ?thesis
        unfolding s using sep [OF nb, of "[c]" "x # r"] by simp
    next
      case False
      let ?out' = "replace_from False rx to (Some c) s'"
      have out: "replace_from False rx to p s = c # ?out'"
        using False unfolding Cons by (rule brace_copy [OF br])
      from less.prems consider "prefix (map canonicalize t) (map canonicalize (c # ?out'))" | "includes_ci ?out' t"
        unfolding out by (auto simp: includes_ci_def sublist_Cons_right)
      then show ?thesis
      proof cases
        case 1
        have "prefix (takeWhile latin (c # ?out')) s"
          using brace_letters [OF br, of p s] by (simp only: out)
        with t(2) 1 have "prefix (map canonicalize t) (map canonicalize s)"
          by (rule name_at_head)
        then show ?thesis by (auto simp: includes_ci_def)
      next
        case 2
        then have "includes_ci s' t"
          by (rule less.hyps [rotated]) (simp add: Cons)
        then show ?thesis unfolding Cons by (rule includes_ci_ConsI)
      qed
    qed
  qed
qed

text \<open>The fraction pass brings in the letters \<open>frac\<close> and nothing else.\<close>

lemma frac_names:
  assumes t: "t \<noteq> []" "\<forall>c \<in> set t. latin c"
  shows "includes_ci (replace_from False fraction_rx fraction_to p s) t \<Longrightarrow>
         includes_ci s t \<or> includes_ci (asc ''frac'') t"
proof (induction "length s" arbitrary: s p rule: less_induct)
  case less
  let ?R = "replace_from False fraction_rx fraction_to"
  note sep = includes_ci_separator [OF t]
  show ?case
  proof (cases s)
    case Nil
    with less.prems show ?thesis by (simp add: frac_Nil)
  next
    case (Cons c s')
    show ?thesis
    proof (cases "frac_head s")
      case True
      then obtain x2 r3 where c: "alnum c"
        and d: "dropWhile alnum s' = 47 # x2 # r3" and x2: "alnum x2"
        unfolding frac_head_shape Cons by blast
      from frac_match [OF c d x2, of p] obtain p' where
        out: "?R p s = [] @ 92 # asc ''frac'' @ 123 # (c # takeWhile alnum s') @ 125 # [] @ 123 #
                (x2 # takeWhile alnum r3) @ 125 # ?R p' (dropWhile alnum r3)"
        unfolding Cons by (auto simp: asc_def)
      let ?out' = "?R p' (dropWhile alnum r3)"
      from less.prems have "includes_ci (asc ''frac'') t \<or> includes_ci (c # takeWhile alnum s') t \<or>
          includes_ci (x2 # takeWhile alnum r3) t \<or> includes_ci ?out' t"
        unfolding out sep [OF not_latin_specials(2)] sep [OF not_latin_specials(5)] sep [OF not_latin_specials(6)]
        using t(1) by simp
      moreover have "includes_ci (dropWhile alnum r3) t \<or> includes_ci (asc ''frac'') t" if "includes_ci ?out' t"
        using that
      proof (rule less.hyps [rotated])
        have "length (dropWhile alnum r3) \<le> length r3" by (rule length_dropWhile_le)
        moreover have "length (dropWhile alnum s') \<le> length s'" by (rule length_dropWhile_le)
        ultimately show "length (dropWhile alnum r3) < length s" by (simp add: d Cons)
      qed
      moreover have "s = (c # takeWhile alnum s') @ 47 # (x2 # takeWhile alnum r3) @ dropWhile alnum r3"
        using d by (metis Cons append_Cons takeWhile_dropWhile_id)
      then have "includes_ci s t \<longleftrightarrow> includes_ci (c # takeWhile alnum s') t \<or>
          includes_ci ((x2 # takeWhile alnum r3) @ dropWhile alnum r3) t"
        using sep [OF not_latin_specials(1), of "c # takeWhile alnum s'"
            "(x2 # takeWhile alnum r3) @ dropWhile alnum r3"] by simp
      ultimately show ?thesis
        by (metis includes_ci_appendI)
    next
      case False
      let ?out' = "?R (Some c) s'"
      have out: "?R p s = c # ?out'"
        using False unfolding Cons by (rule frac_copy)
      from less.prems consider "prefix (map canonicalize t) (map canonicalize (c # ?out'))" | "includes_ci ?out' t"
        unfolding out by (auto simp: includes_ci_def sublist_Cons_right)
      then show ?thesis
      proof cases
        case 1
        have "prefix (takeWhile latin (c # ?out')) s"
          using frac_letters [of p s] by (simp only: out)
        with t(2) 1 have "prefix (map canonicalize t) (map canonicalize s)"
          by (rule name_at_head)
        then show ?thesis by (auto simp: includes_ci_def)
      next
        case 2
        then have "includes_ci s' t \<or> includes_ci (asc ''frac'') t"
          by (rule less.hyps [rotated]) (simp add: Cons)
        then show ?thesis unfolding Cons by (auto intro: includes_ci_ConsI)
      qed
    qed
  qed
qed

section \<open>Texts without Greek material under the structural passes\<close>

lemma frac_no_name: "(n, g) \<in> set greekLetters \<Longrightarrow> \<not> includes_ci (asc ''frac'') (asc n)"
  by (auto simp: greekLetters_def includes_ci_def asc_def char_defs sublist_Cons_right)

lemma structural_passes_names:
  assumes "\<not> has_greek_name s"
  shows "\<not> has_greek_name (structural_passes s)"
proof
  assume "has_greek_name (structural_passes s)"
  then obtain n g where m: "(n, g) \<in> set greekLetters" and i: "includes_ci (structural_passes s) (asc n)"
    by (auto simp: has_greek_name_def)
  have t: "asc n \<noteq> []" "\<forall>c \<in> set (asc n). latin c"
    using table_names [OF m] by (auto simp: latin_def)
  let ?s1 = "replace False subscript_rx subscript_to s"
  let ?s2 = "replace False superscript_rx superscript_to ?s1"
  from i have "includes_ci ?s2 (asc n) \<or> includes_ci (asc ''frac'') (asc n)"
    unfolding structural_passes_eq replace_def [of _ fraction_rx] by (rule frac_names [OF t])
  with frac_no_name [OF m] have "includes_ci ?s2 (asc n)" by simp
  then have "includes_ci ?s1 (asc n)"
    unfolding replace_def [of _ superscript_rx]
    by (rule brace_names [where A = alnum and b = 94, OF _ t, rotated]) simp
  then have "includes_ci s (asc n)"
    unfolding replace_def
    by (rule brace_names [where A = latin and b = 95, OF _ t, rotated]) simp
  with m assms show False by (auto simp: has_greek_name_def)
qed

lemma structural_passes_glyphs:
  assumes "\<not> has_greek_glyph s"
  shows "\<not> has_greek_glyph (structural_passes s)"
proof -
  let ?Q = "\<lambda>c. \<forall>(n, g) \<in> set greekLetters. canonicalize c \<noteq> canonicalize g"
  have "\<forall>c \<in> set s. ?Q c"
    using assms by (auto simp: has_greek_glyph_def)
  moreover have "\<forall>c < 128. ?Q c"
    using canonicalize_ascii canonicalize_greek table_glyphs by fastforce
  ultimately have "\<forall>c \<in> set (structural_passes s). ?Q c"
    by (rule structural_passes_preserves)
  then show ?thesis by (auto simp: has_greek_glyph_def)
qed

lemma structural_passes_chars:
  "set (structural_passes s) \<subseteq> set s \<union> {92, 102, 114, 97, 99, 123, 125, 95, 94}"
proof -
  let ?s1 = "replace False subscript_rx subscript_to s"
  let ?s2 = "replace False superscript_rx superscript_to ?s1"
  have "set ?s1 \<subseteq> set s \<union> {95, 123, 125}"
    using replace_chars [of False subscript_rx subscript_to s]
    by (auto simp: subscript_to_def asc_def)
  moreover have "set ?s2 \<subseteq> set ?s1 \<union> {94, 123, 125}"
    using replace_chars [of False superscript_rx superscript_to ?s1]
    by (auto simp: superscript_to_def asc_def)
  moreover have "set (structural_passes s) \<subseteq> set ?s2 \<union> {92, 102, 114, 97, 99, 123, 125}"
    using replace_chars [of False fraction_rx fraction_to ?s2]
    unfolding structural_passes_eq by (auto simp: fraction_to_def asc_def)
  ultimately show ?thesis by blast
qed

lemma structural_passes_maxwell_guard:
  assumes "\<not> maxwell_guard s"
  shows "\<not> maxwell_guard (structural_passes s)"
  using assms structural_passes_chars [of s]
  by (auto simp: maxwell_guard_def)

section \<open>Splitting a text at a code unit that a pattern does not take\<close>

lemma remaining_behind: "remaining (behind z st) = remaining st + length z"
  by (cases st) simp

lemma filter_behind:
  "filter (\<lambda>st'. remaining st' < remaining (behind z st)) (map (behind z) l) =
     map (behind z) (filter (\<lambda>st'. remaining st' < remaining st) l)"
  by (induction l) (simp_all add: remaining_behind)

lemma iter_behind:
  assumes "\<And>st. f (behind z st) = map (behind z) (f st)"
  shows "iter f n (behind z st) = map (behind z) (iter f n st)"
proof (induction n arbitrary: st)
  case 0
  show ?case by simp
next
  case (Suc n)
  show ?case
    by (simp add: assms filter_behind Suc.IH map_concat comp_def)
qed

lemma capture_behind:
  assumes "suffix (text_of st') (text_of st)"
  shows "capture n (behind z st) (behind z st') = behind z (capture n st st')"
proof -
  obtain p r cs where st: "st = (p, r, cs)" by (cases st)
  obtain p' r' cs' where st': "st' = (p', r', cs')" by (cases st')
  have "length r' \<le> length r"
    using assms by (simp add: st st' suffix_length_le)
  then show ?thesis by (simp add: st st')
qed

lemma step_char_behind:
  "\<not> P x \<Longrightarrow> step_char P (behind (x # b) st) = map (behind (x # b)) (step_char P st)"
  by (cases "(P, st)" rule: step_char.cases) simp_all

lemma at_boundary_behind:
  "\<not> word_char x \<Longrightarrow> at_boundary (behind (x # b) st) = at_boundary st"
  by (cases st rule: at_boundary.cases) simp_all

lemma ms_behind:
  "rejects r ic x \<Longrightarrow> ms r ic (behind (x # b) st) = map (behind (x # b)) (ms r ic st)"
proof (induction r arbitrary: st)
  case (Seq r1 r2)
  then show ?case by (simp add: map_concat comp_def)
next
  case (Star r)
  have "iter (ms r ic) (remaining st + length (x # b)) (behind (x # b) st)
      = map (behind (x # b)) (iter (ms r ic) (remaining st + length (x # b)) st)"
    using Star by (intro iter_behind) simp
  also have "iter (ms r ic) (remaining st + length (x # b)) st = iter (ms r ic) (remaining st) st"
    using ms_remaining [of _ r ic] by (intro iter_fuel) auto
  finally show ?case by (simp add: remaining_behind)
next
  case (Plus r)
  have "iter (ms r ic) (remaining (behind (x # b) st')) (behind (x # b) st')
      = map (behind (x # b)) (iter (ms r ic) (remaining st') st')" for st'
  proof -
    have "iter (ms r ic) (remaining st' + length (x # b)) (behind (x # b) st')
        = map (behind (x # b)) (iter (ms r ic) (remaining st' + length (x # b)) st')"
      using Plus by (intro iter_behind) simp
    also have "iter (ms r ic) (remaining st' + length (x # b)) st' = iter (ms r ic) (remaining st') st'"
      using ms_remaining [of _ r ic] by (intro iter_fuel) auto
    finally show ?thesis by (simp add: remaining_behind)
  qed
  with Plus show ?case by (simp add: map_concat comp_def)
next
  case (Opt r)
  then show ?case by (simp add: filter_behind)
next
  case (Group n r)
  have "capture n (behind (x # b) st) (behind (x # b) st') = behind (x # b) (capture n st st')"
    if "st' \<in> set (ms r ic st)" for st'
    using that by (intro capture_behind ms_suffix)
  with Group show ?case by (simp add: comp_def)
qed (simp_all add: step_char_behind at_boundary_behind split: if_splits)

lemma match_at_behind:
  assumes "rejects r ic x"
  shows "match_at ic r p (a @ x # b) = map_option (behind (x # b)) (match_at ic r p a)"
  using ms_behind [OF assms, of b "(p, a, [])"]
  by (simp add: match_at_def split: list.splits)

text \<open>
  The scan of a text with such a code unit is the scan of the text before it, the code
  unit, and the scan of the text behind it.
\<close>

lemma replace_from_split:
  assumes "rejects r ic x"
  shows "replace_from ic r t p (a @ x # b) = replace_from ic r t p a @ x # replace_from ic r t (Some x) b"
proof (induction "length a" arbitrary: a p rule: less_induct)
  case less
  note m = match_at_behind [OF assms, of p a b]
  show ?case
  proof (cases "match_at ic r p a")
    case None
    then have n: "match_at ic r p (a @ x # b) = None" using m by simp
    show ?thesis
    proof (cases a)
      case Nil
      with None n show ?thesis
        by (simp add: replace_from_Nil_None replace_from_Cons_None)
    next
      case (Cons c a')
      with None n less [of a' "Some c"] show ?thesis
        by (simp add: replace_from_Cons_None)
    qed
  next
    case (Some st')
    obtain p' s' cs where st': "st' = (p', s', cs)" by (cases st')
    have s: "match_at ic r p (a @ x # b) = Some (p', s' @ x # b, cs)"
      using m Some st' by simp
    show ?thesis
    proof (cases "length s' < length a")
      case True
      with Some st' s less [OF True, of p'] show ?thesis
        by (simp add: replace_from_Some_shorter)
    next
      case False
      show ?thesis
      proof (cases a)
        case Nil
        with Some st' s False show ?thesis
          by (simp add: replace_from_Some_empty_Nil replace_from_Some_empty_Cons)
      next
        case (Cons c a')
        with Some st' s False less [of a' "Some c"] show ?thesis
          by (simp add: replace_from_Some_empty_Cons)
      qed
    qed
  qed
qed

text \<open>Only whether the code unit before the text is a word character matters to a scan.\<close>

lemma list_all2_concat_map:
  assumes "list_all2 R xs ys" and "\<And>x y. R x y \<Longrightarrow> list_all2 R (f x) (g y)"
  shows "list_all2 R (concat (map f xs)) (concat (map g ys))"
  using assms(1) by (induction rule: list_all2_induct) (auto intro: list_all2_appendI assms(2))

lemma alike_remaining: "alike st st' \<Longrightarrow> remaining st = remaining st'"
  by (cases st; cases st') simp

lemma list_all2_alike_filter:
  assumes "list_all2 alike xs ys" and "remaining st = remaining st'"
  shows "list_all2 alike (filter (\<lambda>a. remaining a < remaining st) xs)
           (filter (\<lambda>a. remaining a < remaining st') ys)"
  using assms(1) by (induction rule: list_all2_induct) (auto simp: assms(2) dest: alike_remaining)

lemma iter_alike:
  assumes "\<And>st st'. alike st st' \<Longrightarrow> list_all2 alike (f st) (f st')"
  shows "alike st st' \<Longrightarrow> list_all2 alike (iter f n st) (iter f n st')"
proof (induction n arbitrary: st st')
  case 0
  then show ?case by simp
next
  case (Suc n)
  have "list_all2 alike (filter (\<lambda>a. remaining a < remaining st) (f st))
      (filter (\<lambda>a. remaining a < remaining st') (f st'))"
    using Suc.prems by (intro list_all2_alike_filter assms alike_remaining)
  then have "list_all2 alike
      (concat (map (iter f n) (filter (\<lambda>a. remaining a < remaining st) (f st))))
      (concat (map (iter f n) (filter (\<lambda>a. remaining a < remaining st') (f st'))))"
    by (rule list_all2_concat_map) (rule Suc.IH)
  with Suc.prems show ?case
    by (auto intro: list_all2_appendI)
qed

lemma step_char_alike: "alike st st' \<Longrightarrow> list_all2 alike (step_char P st) (step_char P st')"
  by (cases "(P, st)" rule: step_char.cases; cases st') auto

lemma at_boundary_alike: "alike st st' \<Longrightarrow> at_boundary st = at_boundary st'"
  by (cases st rule: at_boundary.cases; cases st') auto

lemma capture_alike: "alike st st' \<Longrightarrow> alike a a' \<Longrightarrow> alike (capture n st a) (capture n st' a')"
  by (cases st; cases st'; cases a; cases a') simp

lemma ms_alike: "alike st st' \<Longrightarrow> list_all2 alike (ms r ic st) (ms r ic st')"
proof (induction r arbitrary: st st')
  case (Seq r1 r2)
  have "list_all2 alike (ms r1 ic st) (ms r1 ic st')" by (rule Seq.IH) (rule Seq.prems)
  then have "list_all2 alike (concat (map (ms r2 ic) (ms r1 ic st))) (concat (map (ms r2 ic) (ms r1 ic st')))"
    by (rule list_all2_concat_map) (rule Seq.IH)
  then show ?case by simp
next
  case (Alt r1 r2)
  have "list_all2 alike (ms r1 ic st) (ms r1 ic st')" by (rule Alt.IH) (rule Alt.prems)
  moreover have "list_all2 alike (ms r2 ic st) (ms r2 ic st')" by (rule Alt.IH) (rule Alt.prems)
  ultimately show ?case by (simp add: list_all2_appendI)
next
  case (Star r)
  have "list_all2 alike (iter (ms r ic) (remaining st) st) (iter (ms r ic) (remaining st) st')"
    using Star.prems by (intro iter_alike Star.IH)
  then show ?case
    using alike_remaining [OF Star.prems] by simp
next
  case (Plus r)
  have "list_all2 alike (ms r ic st) (ms r ic st')" by (rule Plus.IH) (rule Plus.prems)
  then have "list_all2 alike
      (concat (map (\<lambda>a. iter (ms r ic) (remaining a) a) (ms r ic st)))
      (concat (map (\<lambda>a. iter (ms r ic) (remaining a) a) (ms r ic st')))"
  proof (rule list_all2_concat_map)
    fix a a' assume a: "alike a a'"
    then have "list_all2 alike (iter (ms r ic) (remaining a) a) (iter (ms r ic) (remaining a) a')"
      by (intro iter_alike Plus.IH)
    then show "list_all2 alike (iter (ms r ic) (remaining a) a) (iter (ms r ic) (remaining a') a')"
      using alike_remaining [OF a] by simp
  qed
  then show ?case by simp
next
  case (Opt r)
  have "list_all2 alike (ms r ic st) (ms r ic st')" by (rule Opt.IH) (rule Opt.prems)
  then have "list_all2 alike (filter (\<lambda>a. remaining a < remaining st) (ms r ic st))
      (filter (\<lambda>a. remaining a < remaining st') (ms r ic st'))"
    using Opt.prems by (intro list_all2_alike_filter alike_remaining)
  with Opt.prems show ?case
    by (auto intro: list_all2_appendI)
next
  case (Group n r)
  have "list_all2 alike (ms r ic st) (ms r ic st')" by (rule Group.IH) (rule Group.prems)
  then have "list_all2 alike (map (capture n st) (ms r ic st)) (map (capture n st') (ms r ic st'))"
    using Group.prems by (induction rule: list_all2_induct) (auto intro: capture_alike)
  then show ?case by simp
qed (auto simp: step_char_alike at_boundary_alike)

lemma replace_from_prev:
  "is_word p = is_word q \<Longrightarrow> replace_from ic r t p s = replace_from ic r t q s"
proof (induction "length s" arbitrary: s p q rule: less_induct)
  case less
  have "list_all2 alike (ms r ic (p, s, [])) (ms r ic (q, s, []))"
    using less.prems by (intro ms_alike) simp
  then consider "match_at ic r p s = None" "match_at ic r q s = None"
    | p' q' s' cs where "match_at ic r p s = Some (p', s', cs)" "match_at ic r q s = Some (q', s', cs)"
        "is_word p' = is_word q'"
    by (cases "ms r ic (p, s, [])"; cases "ms r ic (q, s, [])")
       (auto simp: match_at_def elim: alike.elims)
  then show ?case
  proof cases
    case 1
    then show ?thesis
      by (cases s) (simp_all add: replace_from_Nil_None replace_from_Cons_None)
  next
    case 2
    show ?thesis
    proof (cases "length s' < length s")
      case True
      with 2 less(1) [OF True 2(3)] show ?thesis
        by (simp add: replace_from_Some_shorter)
    next
      case False
      with 2 show ?thesis
        by (cases s) (simp_all add: replace_from_Some_empty_Nil replace_from_Some_empty_Cons)
    qed
  qed
qed

lemma replace_split:
  assumes "rejects r ic x" and "\<not> word_char x"
  shows "replace ic r t (a @ x # b) = replace ic r t a @ x # replace ic r t b"
proof -
  have "replace_from ic r t (Some x) b = replace_from ic r t None b"
    using assms(2) by (intro replace_from_prev) simp
  then show ?thesis
    by (simp add: replace_def replace_from_split [OF assms(1)])
qed

section \<open>Names and glyphs under one step of the Greek-letter pass\<close>

lemma not_word_not_letter:
  assumes "\<not> word_char x" and "latin c"
  shows "canonicalize x \<noteq> canonicalize c"
proof
  assume "canonicalize x = canonicalize c"
  with assms(2) have "latin x" by (rule canonicalize_latin)
  with assms(1) show False by (simp add: latin_def word_char_def)
qed

lemma rejects_str: "\<forall>c \<in> set t. canonicalize x \<noteq> canonicalize c \<Longrightarrow> rejects (str t) True x"
  by (induction t rule: str.induct) simp_all

lemma rejects_name:
  assumes "\<forall>c \<in> set (asc n). latin c" and "\<not> word_char x"
  shows "rejects (seqs [WordB, str (asc n), WordB]) True x"
  using assms by (simp add: rejects_str not_word_not_letter)

lemma rejects_greek_rx:
  assumes "\<forall>c \<in> set (asc n). latin c" and "\<not> word_char x" and "canonicalize x \<noteq> canonicalize g"
  shows "rejects (greek_rx n g) True x"
  using rejects_name [OF assms(1,2)] assms(3) by (simp add: greek_rx_def)

lemma table_latin: "(n, g) \<in> set greekLetters \<Longrightarrow> \<forall>c \<in> set (asc n). latin c"
  using table_names [of n g] by (simp add: latin_def)

lemma glyph_not_word:
  assumes "945 \<le> g" "g \<le> 969" and "canonicalize c = canonicalize g"
  shows "\<not> word_char c"
proof
  assume "word_char c"
  then have "c < 128" by (auto simp: char_defs)
  then have "canonicalize c < 128" by (rule canonicalize_ascii)
  moreover have "913 \<le> canonicalize g" using assms(1,2) by (rule canonicalize_greek)
  ultimately show False using assms(3) by simp
qed

lemma table_glyph_not_word:
  "(n, g) \<in> set greekLetters \<Longrightarrow> canonicalize c = canonicalize g \<Longrightarrow> \<not> word_char c"
  using table_glyphs [of n g] glyph_not_word [of g c] by simp

lemma letter_not_glyph:
  assumes "(n, g) \<in> set greekLetters" and "word_char c"
  shows "canonicalize c \<noteq> canonicalize g"
  using table_glyph_not_word [OF assms(1)] assms(2) by blast

text \<open>A code unit that is no word character and not the glyph of the entry splits the step.\<close>

lemma greek_step_split:
  assumes "(n, g) \<in> set greekLetters" and "\<not> word_char x" and "canonicalize x \<noteq> canonicalize g"
  shows "greek_step (a @ x # b) (n, g) = greek_step a (n, g) @ x # greek_step b (n, g)"
  using replace_split [OF rejects_greek_rx [OF table_latin [OF assms(1)] assms(2,3)] assms(2)]
  by (simp add: greek_step_def)

lemma greek_match_Nil: "n \<noteq> [] \<Longrightarrow> match_at True (greek_rx n g) p [] = None"
proof -
  assume "n \<noteq> []"
  then obtain c t where "asc n = c # t" by (cases "asc n") auto
  then show ?thesis by (cases t) (simp_all add: match_at_def greek_rx_def)
qed

lemma greek_scan_Nil: "n \<noteq> [] \<Longrightarrow> replace_from True (greek_rx n g) t p [] = []"
  by (simp add: replace_from_Nil_None greek_match_Nil)

lemma greek_step_Nil: "n \<noteq> [] \<Longrightarrow> greek_step [] (n, g) = []"
  by (simp add: greek_step_def replace_def greek_scan_Nil)

lemma greek_step_single:
  assumes "(n, g) \<in> set greekLetters" and "\<not> word_char x" and "canonicalize x \<noteq> canonicalize g"
  shows "greek_step (x # b) (n, g) = x # greek_step b (n, g)"
  using greek_step_split [OF assms, of "[]" b] table_names [OF assms(1)] by (simp add: greek_step_Nil)

text \<open>The scan of a text before a text whose scan does not look at what stands before it.\<close>

lemma replace_from_before:
  assumes h1: "\<And>p a. a \<noteq> [] \<Longrightarrow> match_at ic r p (a @ z) = map_option (behind z) (match_at ic r p a)"
    and h2: "\<And>p. match_at ic r p [] = None"
    and h3: "\<And>q. replace_from ic r t q z = y"
  shows "replace_from ic r t p (a @ z) = replace_from ic r t p a @ y"
proof (induction "length a" arbitrary: a p rule: less_induct)
  case less
  show ?case
  proof (cases a)
    case Nil
    then show ?thesis by (simp add: h3 replace_from_Nil_None h2)
  next
    case (Cons c a')
    then have m: "match_at ic r p (a @ z) = map_option (behind z) (match_at ic r p a)"
      by (intro h1) simp
    show ?thesis
    proof (cases "match_at ic r p a")
      case None
      with m Cons less [of a' "Some c"] show ?thesis
        by (simp add: replace_from_Cons_None)
    next
      case (Some st')
      obtain p' s' cs where st': "st' = (p', s', cs)" by (cases st')
      have s: "match_at ic r p (a @ z) = Some (p', s' @ z, cs)"
        using m Some st' by simp
      show ?thesis
      proof (cases "length s' < length a")
        case True
        with Some st' s less [OF True, of p'] show ?thesis
          by (simp add: replace_from_Some_shorter)
      next
        case False
        with Some st' s Cons less [of a' "Some c"] show ?thesis
          by (simp add: replace_from_Some_empty_Cons)
      qed
    qed
  qed
qed

text \<open>The closed form of the name pattern.\<close>

lemma ms_str_ci:
  "t \<noteq> [] \<Longrightarrow>
   ms (str t) True (p, s, cs) =
     (if prefix (map canonicalize t) (map canonicalize s)
      then [(Some (s ! (length t - 1)), drop (length t) s, cs)] else [])"
proof (induction t arbitrary: p s rule: str.induct)
  case 1
  then show ?case by simp
next
  case (2 c)
  show ?case by (cases s) simp_all
next
  case (3 c d t)
  show ?case
  proof (cases s)
    case Nil
    then show ?thesis by simp
  next
    case (Cons x r)
    show ?thesis
      using "3.IH" [of "Some x" r] by (simp add: Cons)
  qed
qed

lemma ms_name:
  "t \<noteq> [] \<Longrightarrow>
   ms (seqs [WordB, str t, WordB]) True (p, s, cs) =
     (if at_boundary (p, s, cs) \<and> prefix (map canonicalize t) (map canonicalize s) \<and>
         at_boundary (Some (s ! (length t - 1)), drop (length t) s, cs)
      then [(Some (s ! (length t - 1)), drop (length t) s, cs)] else [])"
  by (simp add: ms_str_ci)

lemma ms_greek_rx:
  "n \<noteq> [] \<Longrightarrow>
   ms (greek_rx n g) True (p, s, cs) =
     (if at_boundary (p, s, cs) \<and> prefix (map canonicalize (asc n)) (map canonicalize s) \<and>
         at_boundary (Some (s ! (length n - 1)), drop (length n) s, cs)
      then [(Some (s ! (length n - 1)), drop (length n) s, cs)] else [])
     @ step_char (\<lambda>x. canonicalize x = canonicalize g) (p, s, cs)"
  using ms_name [of "asc n" p s cs] by (simp add: greek_rx_def asc_def)

text \<open>A code unit that the glyph pattern of the entry matches becomes the command.\<close>

lemma greek_match_glyph:
  assumes "(n, g) \<in> set greekLetters" and "canonicalize c = canonicalize g"
  shows "match_at True (greek_rx n g) q (c # b) = Some (Some c, b, [])"
proof -
  have n: "n \<noteq> []" using table_names [OF assms(1)] by simp
  then obtain l t where lt: "asc n = l # t" by (cases "asc n") auto
  have "latin l" using table_latin [OF assms(1)] lt by simp
  moreover have "\<not> word_char c" using assms by (rule table_glyph_not_word)
  ultimately have "canonicalize c \<noteq> canonicalize l" by (intro not_word_not_letter)
  then have "\<not> prefix (map canonicalize (asc n)) (map canonicalize (c # b))"
    by (auto simp: lt)
  then show ?thesis
    using assms(2) by (simp add: match_at_def ms_greek_rx [OF n])
qed

lemma greek_match_before_glyph:
  assumes "(n, g) \<in> set greekLetters" and "\<not> word_char c" and "a \<noteq> []"
  shows "match_at True (greek_rx n g) p (a @ c # b) =
           map_option (behind (c # b)) (match_at True (greek_rx n g) p a)"
proof -
  obtain x a' where a: "a = x # a'" using assms(3) by (cases a) auto
  let ?N = "seqs [WordB, str (asc n), WordB]"
  have "rejects ?N True c"
    using table_latin [OF assms(1)] assms(2) by (rule rejects_name)
  from ms_behind [OF this, of b "(p, a, [])"]
  have 1: "ms ?N True (p, a @ c # b, []) = map (behind (c # b)) (ms ?N True (p, a, []))" by simp
  have 2: "ms (Lit g) True (p, a @ c # b, []) = map (behind (c # b)) (ms (Lit g) True (p, a, []))"
    by (simp add: a)
  have "ms (greek_rx n g) True (p, a @ c # b, []) = map (behind (c # b)) (ms (greek_rx n g) True (p, a, []))"
    unfolding greek_rx_def ms.simps(8) 1 2 by simp
  then show ?thesis
    by (simp add: match_at_def split: list.splits)
qed

lemma greek_step_glyph:
  assumes "(n, g) \<in> set greekLetters" and "canonicalize c = canonicalize g"
  shows "greek_step (a @ c # b) (n, g) = greek_step a (n, g) @ 92 # asc n @ greek_step b (n, g)"
proof -
  let ?r = "greek_rx n g" and ?t = "[Txt (92 # asc n)]"
  have n: "n \<noteq> []" using table_names [OF assms(1)] by simp
  have c: "\<not> word_char c" using assms by (rule table_glyph_not_word)
  have "replace_from True ?r ?t q (c # b) = 92 # asc n @ replace_from True ?r ?t (Some c) b" for q
    using greek_match_glyph [OF assms, of q b] by (simp add: replace_from_Some_shorter)
  then have "replace_from True ?r ?t None (a @ c # b) =
      replace_from True ?r ?t None a @ 92 # asc n @ replace_from True ?r ?t (Some c) b"
    by (intro replace_from_before greek_match_before_glyph [OF assms(1) c] greek_match_Nil [OF n])
  moreover have "replace_from True ?r ?t (Some c) b = replace_from True ?r ?t None b"
    using c by (intro replace_from_prev) simp
  ultimately show ?thesis
    by (simp add: greek_step_def replace_def)
qed

text \<open>A step treats the text before a code unit that is no word character on its own.\<close>

lemma greek_step_before:
  assumes "(n, g) \<in> set greekLetters" and "z = [] \<or> \<not> word_char (hd z)"
  shows "greek_step (a @ z) (n, g) = greek_step a (n, g) @ greek_step z (n, g)"
proof (cases z)
  case Nil
  then show ?thesis using table_names [OF assms(1)] by (simp add: greek_step_Nil)
next
  case (Cons y b)
  with assms(2) have y: "\<not> word_char y" by simp
  have e: "greek_step [] (n, g) = []" using table_names [OF assms(1)] by (simp add: greek_step_Nil)
  show ?thesis
  proof (cases "canonicalize y = canonicalize g")
    case True
    from greek_step_glyph [OF assms(1) True, of a b] greek_step_glyph [OF assms(1) True, of "[]" b]
    show ?thesis by (simp add: Cons e)
  next
    case False
    from greek_step_split [OF assms(1) y False, of a b] greek_step_split [OF assms(1) y False, of "[]" b]
    show ?thesis by (simp add: Cons e)
  qed
qed

lemma greek_step_head:
  assumes "(n, g) \<in> set greekLetters" and "z = [] \<or> \<not> word_char (hd z)"
  shows "greek_step z (n, g) = [] \<or> \<not> word_char (hd (greek_step z (n, g)))"
proof (cases z)
  case Nil
  then show ?thesis using table_names [OF assms(1)] by (simp add: greek_step_Nil)
next
  case (Cons y b)
  with assms(2) have y: "\<not> word_char y" by simp
  have e: "greek_step [] (n, g) = []" using table_names [OF assms(1)] by (simp add: greek_step_Nil)
  show ?thesis
  proof (cases "canonicalize y = canonicalize g")
    case True
    from greek_step_glyph [OF assms(1) True, of "[]" b]
    show ?thesis by (simp add: Cons e word_char_def char_defs)
  next
    case False
    from greek_step_split [OF assms(1) y False, of "[]" b] y
    show ?thesis by (simp add: Cons e)
  qed
qed

lemma fold_greek_before:
  assumes "set es \<subseteq> set greekLetters" and "z = [] \<or> \<not> word_char (hd z)"
  shows "foldl greek_step (a @ z) es = foldl greek_step a es @ foldl greek_step z es"
  using assms
proof (induction es arbitrary: a z)
  case Nil
  show ?case by simp
next
  case (Cons e es)
  obtain n g where e: "e = (n, g)" by (cases e)
  have m: "(n, g) \<in> set greekLetters" using Cons.prems(1) e by simp
  have "foldl greek_step (greek_step a e @ greek_step z e) es =
      foldl greek_step (greek_step a e) es @ foldl greek_step (greek_step z e) es"
    using Cons.prems(1) greek_step_head [OF m Cons.prems(2)] by (intro Cons.IH) (simp_all add: e)
  then show ?case
    using greek_step_before [OF m Cons.prems(2), of a] by (simp add: e)
qed

lemma greek_pass_before:
  "z = [] \<or> \<not> word_char (hd z) \<Longrightarrow> greek_pass (a @ z) = greek_pass a @ greek_pass z"
  unfolding greek_pass_def by (rule fold_greek_before) simp_all

lemma fold_greek_split:
  assumes "set es \<subseteq> set greekLetters" and "\<not> word_char x"
    and "\<forall>(n, g) \<in> set es. canonicalize x \<noteq> canonicalize g"
  shows "foldl greek_step (a @ x # b) es = foldl greek_step a es @ x # foldl greek_step b es"
  using assms(1,3)
proof (induction es arbitrary: a b)
  case Nil
  show ?case by simp
next
  case (Cons e es)
  obtain n g where e: "e = (n, g)" by (cases e)
  have m: "(n, g) \<in> set greekLetters" and x: "canonicalize x \<noteq> canonicalize g"
    using Cons.prems e by auto
  have "foldl greek_step (greek_step a e @ x # greek_step b e) es =
      foldl greek_step (greek_step a e) es @ x # foldl greek_step (greek_step b e) es"
    using Cons.prems by (intro Cons.IH) auto
  then show ?case
    using greek_step_split [OF m assms(2) x, of a b] by (simp add: e)
qed

lemma fold_greek_Nil: "set es \<subseteq> set greekLetters \<Longrightarrow> foldl greek_step [] es = []"
proof (induction es)
  case Nil
  show ?case by simp
next
  case (Cons e es)
  obtain n g where e: "e = (n, g)" by (cases e)
  with Cons.prems have "n \<noteq> []" using table_names [of n g] by simp
  with Cons show ?case by (simp add: e greek_step_Nil)
qed

lemma greek_pass_Nil: "greek_pass [] = []"
  unfolding greek_pass_def by (rule fold_greek_Nil) simp

text \<open>
  A code unit that is no word character and that no glyph pattern matches splits the
  pass: the text before it and the text behind it are rewritten on their own.
\<close>

lemma greek_pass_split:
  assumes "\<not> word_char x" and "\<not> greek_glyph x"
  shows "greek_pass (a @ x # b) = greek_pass a @ x # greek_pass b"
  unfolding greek_pass_def
  using assms by (intro fold_greek_split) (auto simp: greek_glyph_def)

section \<open>A name or a glyph as the whole text\<close>

lemma case_variant_canonicalize:
  assumes "case_variant v t" and "\<forall>c \<in> set t. lower_latin c"
  shows "map canonicalize v = map canonicalize t"
proof -
  have "list_all2 (\<lambda>x c. x = c \<or> x + 32 = c) v t"
    using assms(1) by (simp add: case_variant_def)
  then show ?thesis
    using assms(2)
  proof (induction rule: list_all2_induct)
    case Nil
    show ?case by simp
  next
    case (Cons x xs c cs)
    have "canonicalize x = canonicalize c"
      using Cons.hyps(1) Cons.prems by (auto simp: canonicalize_def lower_latin_def)
    with Cons show ?case by simp
  qed
qed

lemma table_lower: "(n, g) \<in> set greekLetters \<Longrightarrow> \<forall>c \<in> set (asc n). lower_latin c"
  using table_names [of n g] by simp

lemma same_canonicalize_latin:
  assumes "map canonicalize v = map canonicalize t" and "\<forall>c \<in> set t. latin c"
  shows "\<forall>x \<in> set v. latin x"
proof
  fix x assume "x \<in> set v"
  then have "canonicalize x \<in> set (map canonicalize t)"
    unfolding assms(1) [symmetric] by simp
  then obtain c where "c \<in> set t" "canonicalize x = canonicalize c" by auto
  with assms(2) show "latin x" by (auto intro: canonicalize_latin)
qed

lemma prefix_same_length: "prefix xs ys \<Longrightarrow> length xs = length ys \<Longrightarrow> xs = ys"
  by (auto simp: prefix_def)

lemma latin_word: "latin c \<Longrightarrow> word_char c"
  by (auto simp: latin_def word_char_def)

lemma ascii_not_glyph:
  assumes "(n, g) \<in> set greekLetters" and "c < 128"
  shows "canonicalize c \<noteq> canonicalize g"
proof -
  have "canonicalize c < 128" using assms(2) by (rule canonicalize_ascii)
  moreover have "913 \<le> canonicalize g"
    using table_glyphs [OF assms(1)] by (intro canonicalize_greek) simp_all
  ultimately show ?thesis by simp
qed

text \<open>Inside a word no pattern of the table matches.\<close>

lemma greek_scan_inside_word:
  assumes "(n, g) \<in> set greekLetters"
  shows "word_char c0 \<Longrightarrow> \<forall>c \<in> set w. latin c \<Longrightarrow>
         replace_from True (greek_rx n g) t (Some c0) w = w"
proof (induction w arbitrary: c0)
  case Nil
  show ?case using table_names [OF assms] by (simp add: greek_scan_Nil)
next
  case (Cons d w)
  have n: "n \<noteq> []" using table_names [OF assms] by simp
  have d: "word_char d" using Cons.prems(2) by (simp add: latin_word)
  then have "canonicalize d \<noteq> canonicalize g"
    using assms by (intro letter_not_glyph)
  then have "match_at True (greek_rx n g) (Some c0) (d # w) = None"
    using Cons.prems(1) d by (simp add: match_at_def ms_greek_rx [OF n])
  moreover have "replace_from True (greek_rx n g) t (Some d) w = w"
    using d Cons.prems(2) by (intro Cons.IH) simp_all
  ultimately show ?case by (simp add: replace_from_Cons_None)
qed

text \<open>A word that is not the name of the entry, in any case, is left as it is.\<close>

lemma greek_step_other_word:
  assumes "(n, g) \<in> set greekLetters" and "\<forall>c \<in> set v. latin c"
    and "map canonicalize v \<noteq> map canonicalize (asc n)"
  shows "greek_step v (n, g) = v"
proof (cases v)
  case Nil
  then show ?thesis using table_names [OF assms(1)] by (simp add: greek_step_Nil)
next
  case (Cons c w)
  have n: "n \<noteq> []" using table_names [OF assms(1)] by simp
  let ?k = "length n"
  have "\<not> (prefix (map canonicalize (asc n)) (map canonicalize v) \<and>
            at_boundary (Some (v ! (?k - 1)), drop ?k v, []))"
  proof
    assume a: "prefix (map canonicalize (asc n)) (map canonicalize v) \<and>
               at_boundary (Some (v ! (?k - 1)), drop ?k v, [])"
    then have k: "?k \<le> length v"
      by (auto dest!: prefix_length_le simp: asc_def)
    then have "?k - 1 < length v" using n by (cases n) auto
    then have "v ! (?k - 1) \<in> set v" by (rule nth_mem)
    then have w: "word_char (v ! (?k - 1))" using assms(2) by (simp add: latin_word)
    show False
    proof (cases "drop ?k v")
      case Nil
      with k have "length v = ?k" by simp
      then have "length (map canonicalize (asc n)) = length (map canonicalize v)"
        by (simp add: asc_def)
      with a have "map canonicalize (asc n) = map canonicalize v"
        by (intro prefix_same_length) simp_all
      with assms(3) show False by simp
    next
      case (Cons d r)
      have "d \<in> set (drop ?k v)" by (simp add: Cons)
      then have "d \<in> set v" by (rule in_set_dropD)
      then have "word_char d" using assms(2) by (simp add: latin_word)
      with a w Cons show False by simp
    qed
  qed
  moreover have "canonicalize c \<noteq> canonicalize g"
    using assms(1,2) Cons by (intro letter_not_glyph) (simp_all add: latin_word)
  ultimately have "match_at True (greek_rx n g) None v = None"
    by (simp add: match_at_def ms_greek_rx [OF n] Cons)
  moreover have "replace_from True (greek_rx n g) [Txt (92 # asc n)] (Some c) w = w"
    using assms(1,2) Cons by (intro greek_scan_inside_word) (simp_all add: latin_word)
  ultimately show ?thesis
    by (simp add: greek_step_def replace_def Cons replace_from_Cons_None)
qed

text \<open>The name of the entry, in any case, becomes the command.\<close>

lemma greek_step_own_word:
  assumes "(n, g) \<in> set greekLetters" and "map canonicalize v = map canonicalize (asc n)"
  shows "greek_step v (n, g) = 92 # asc n"
proof -
  have n: "n \<noteq> []" using table_names [OF assms(1)] by simp
  have l: "length v = length n"
    using arg_cong [OF assms(2), of length] by (simp add: asc_def)
  have lat: "\<forall>x \<in> set v. latin x"
    using assms(2) table_latin [OF assms(1)] by (rule same_canonicalize_latin)
  obtain c w where v: "v = c # w" using n l by (cases v) auto
  have "length n - 1 < length v" using l n by (cases n) auto
  then have "v ! (length n - 1) \<in> set v" by (rule nth_mem)
  then have "latin (v ! (length n - 1))" using lat by blast
  then have w: "word_char (v ! (length n - 1))" by (rule latin_word)
  have "latin c" using lat v by simp
  then have c: "word_char c" by (rule latin_word)
  from w c
  have "match_at True (greek_rx n g) None v = Some (Some (v ! (length n - 1)), [], [])"
    using l by (simp add: match_at_def ms_greek_rx [OF n] assms(2)) (simp add: v)
  then have "replace_from True (greek_rx n g) [Txt (92 # asc n)] None v =
      92 # asc n @ replace_from True (greek_rx n g) [Txt (92 # asc n)] (Some (v ! (length n - 1))) []"
    by (simp add: replace_from_Some_shorter v)
  then show ?thesis
    by (simp add: greek_step_def replace_def greek_scan_Nil [OF n])
qed

subsection \<open>The table\<close>

lemma table_distinct: "distinct (map fst greekLetters)" "distinct (map snd greekLetters)"
  by (simp_all add: greekLetters_def)

lemma asc_inject: "asc n = asc n' \<longleftrightarrow> n = n'"
proof -
  have "inj (of_char :: char \<Rightarrow> nat)" by (rule injI) simp
  then show ?thesis unfolding asc_def by (rule inj_map_eq_map)
qed

lemma canonicalize_lower_inject:
  "lower_latin c \<Longrightarrow> lower_latin d \<Longrightarrow> canonicalize c = canonicalize d \<Longrightarrow> c = d"
  by (auto simp: canonicalize_def lower_latin_def)

lemma canonicalize_names_inject:
  assumes "\<forall>c \<in> set s. lower_latin c" and "\<forall>c \<in> set t. lower_latin c"
    and "map canonicalize s = map canonicalize t"
  shows "s = t"
  using assms
proof (induction s arbitrary: t)
  case Nil
  then show ?case by simp
next
  case (Cons c s)
  then obtain d t' where t: "t = d # t'" by (cases t) auto
  with Cons.prems have "c = d" by (auto intro: canonicalize_lower_inject)
  moreover have "s = t'" using Cons.prems t by (intro Cons.IH) simp_all
  ultimately show ?case by (simp add: t)
qed

lemma table_names_differ:
  assumes "(n, g) \<in> set greekLetters" and "(n', g') \<in> set greekLetters" and "n \<noteq> n'"
  shows "map canonicalize (asc n) \<noteq> map canonicalize (asc n')"
  using canonicalize_names_inject [OF table_lower [OF assms(1)] table_lower [OF assms(2)]] assms(3)
  by (auto simp: asc_inject)

lemma table_glyphs_differ:
  assumes "(n, g) \<in> set greekLetters" and "(n', g') \<in> set greekLetters" and "g \<noteq> g'"
  shows "canonicalize g \<noteq> canonicalize g'"
  using table_glyphs [OF assms(1)] table_glyphs [OF assms(2)] assms(3)
  by (auto simp: canonicalize_def lower_latin_def)

text \<open>The table around one of its entries: every other entry has another name and another glyph.\<close>

lemma table_around:
  assumes "(n, g) \<in> set greekLetters"
  obtains ys zs where "greekLetters = ys @ (n, g) # zs"
    and "\<forall>(n', g') \<in> set ys \<union> set zs. (n', g') \<in> set greekLetters \<and> n' \<noteq> n \<and> g' \<noteq> g"
proof -
  from assms obtain ys zs where yz: "greekLetters = ys @ (n, g) # zs"
    by (auto dest: split_list)
  have "distinct (map fst (ys @ (n, g) # zs))" "distinct (map snd (ys @ (n, g) # zs))"
    using table_distinct by (simp_all add: yz)
  then have "\<forall>(n', g') \<in> set ys \<union> set zs. n' \<noteq> n \<and> g' \<noteq> g"
    by (auto simp: image_iff)
  moreover have "\<forall>e \<in> set ys \<union> set zs. e \<in> set greekLetters"
    by (auto simp: yz)
  ultimately have "\<forall>(n', g') \<in> set ys \<union> set zs. (n', g') \<in> set greekLetters \<and> n' \<noteq> n \<and> g' \<noteq> g"
    by blast
  with yz show ?thesis by (rule that)
qed

text \<open>The command of an entry is left as it is by every other entry.\<close>

lemma greek_step_other_command:
  assumes "(n, g) \<in> set greekLetters" and "(n', g') \<in> set greekLetters" and "n' \<noteq> n"
  shows "greek_step (92 # asc n) (n', g') = 92 # asc n"
proof -
  have "\<not> word_char 92" by (simp add: char_defs)
  moreover have "canonicalize 92 \<noteq> canonicalize g'"
    using assms(2) by (rule ascii_not_glyph) simp
  ultimately have "greek_step (92 # asc n) (n', g') = 92 # greek_step (asc n) (n', g')"
    by (intro greek_step_single assms(2))
  moreover have "greek_step (asc n) (n', g') = asc n"
    using assms by (intro greek_step_other_word table_latin table_names_differ) auto
  ultimately show ?thesis by simp
qed

lemma greek_pass_name:
  assumes "(n, g) \<in> set greekLetters" and "map canonicalize v = map canonicalize (asc n)"
  shows "greek_pass v = 92 # asc n"
proof -
  from assms(1) obtain ys zs where yz: "greekLetters = ys @ (n, g) # zs"
    and o: "\<forall>(n', g') \<in> set ys \<union> set zs. (n', g') \<in> set greekLetters \<and> n' \<noteq> n \<and> g' \<noteq> g"
    by (rule table_around)
  have lat: "\<forall>x \<in> set v. latin x"
    using assms(2) table_latin [OF assms(1)] by (rule same_canonicalize_latin)
  have "foldl greek_step v ys = v"
  proof (rule foldl_unchanged)
    fix e assume e: "e \<in> set ys"
    obtain n' g' where ng: "e = (n', g')" by (cases e)
    with e o have m: "(n', g') \<in> set greekLetters" "n' \<noteq> n" by auto
    have "map canonicalize v \<noteq> map canonicalize (asc n')"
      unfolding assms(2) using assms(1) m(1) m(2) [symmetric] by (rule table_names_differ)
    with m(1) lat show "greek_step v e = v"
      unfolding ng by (rule greek_step_other_word)
  qed
  moreover have "greek_step v (n, g) = 92 # asc n"
    using assms by (rule greek_step_own_word)
  moreover have "foldl greek_step (92 # asc n) zs = 92 # asc n"
  proof (rule foldl_unchanged)
    fix e assume e: "e \<in> set zs"
    obtain n' g' where ng: "e = (n', g')" by (cases e)
    with e o have m: "(n', g') \<in> set greekLetters" "n' \<noteq> n" by auto
    show "greek_step (92 # asc n) e = 92 # asc n"
      unfolding ng using assms(1) m by (rule greek_step_other_command)
  qed
  ultimately show ?thesis
    by (simp add: greek_pass_def yz)
qed

lemma greek_pass_glyph:
  assumes "(n, g) \<in> set greekLetters" and "canonicalize c = canonicalize g"
  shows "greek_pass [c] = 92 # asc n"
proof -
  from assms(1) obtain ys zs where yz: "greekLetters = ys @ (n, g) # zs"
    and o: "\<forall>(n', g') \<in> set ys \<union> set zs. (n', g') \<in> set greekLetters \<and> n' \<noteq> n \<and> g' \<noteq> g"
    by (rule table_around)
  have c: "\<not> word_char c" using assms by (rule table_glyph_not_word)
  have "foldl greek_step [c] ys = [c]"
  proof (rule foldl_unchanged)
    fix e assume e: "e \<in> set ys"
    obtain n' g' where ng: "e = (n', g')" by (cases e)
    with e o have m: "(n', g') \<in> set greekLetters" "g' \<noteq> g" by auto
    have "canonicalize c \<noteq> canonicalize g'"
      unfolding assms(2) using assms(1) m(1) m(2) [symmetric] by (rule table_glyphs_differ)
    with m(1) c have "greek_step [c] (n', g') = c # greek_step [] (n', g')"
      by (rule greek_step_single)
    then show "greek_step [c] e = [c]"
      using table_names [OF m(1)] by (simp add: ng greek_step_Nil)
  qed
  moreover have "greek_step [c] (n, g) = 92 # asc n"
    using greek_step_glyph [OF assms, of "[]" "[]"] table_names [OF assms(1)]
    by (simp add: greek_step_Nil)
  moreover have "foldl greek_step (92 # asc n) zs = 92 # asc n"
  proof (rule foldl_unchanged)
    fix e assume e: "e \<in> set zs"
    obtain n' g' where ng: "e = (n', g')" by (cases e)
    with e o have m: "(n', g') \<in> set greekLetters" "n' \<noteq> n" by auto
    show "greek_step (92 # asc n) e = 92 # asc n"
      unfolding ng using assms(1) m by (rule greek_step_other_command)
  qed
  ultimately show ?thesis
    by (simp add: greek_pass_def yz)
qed

section \<open>A name or a glyph within a text\<close>

subsection \<open>The structural passes around a delimiter\<close>

lemma rejects_structural:
  assumes "delimiter x"
  shows "rejects subscript_rx False x" "rejects superscript_rx False x" "rejects fraction_rx False x"
  using assms by (simp_all add: delimiter_def rx_defs char_defs)

lemma structural_passes_split:
  assumes "delimiter x"
  shows "structural_passes (a @ x # b) = structural_passes a @ x # structural_passes b"
proof -
  have x: "\<not> word_char x" using assms by (simp add: delimiter_def)
  show ?thesis
    unfolding structural_passes_eq
    by (simp only: replace_split [OF rejects_structural(1) [OF assms] x]
        replace_split [OF rejects_structural(2) [OF assms] x]
        replace_split [OF rejects_structural(3) [OF assms] x])
qed

lemma structural_passes_Nil: "structural_passes [] = []"
  by (simp add: structural_passes_unchanged)

lemma structural_passes_after:
  assumes "pre = [] \<or> delimiter (last pre)"
  shows "structural_passes (pre @ w) = structural_passes pre @ structural_passes w"
proof (cases pre rule: rev_cases)
  case Nil
  then show ?thesis by (simp add: structural_passes_Nil)
next
  case (snoc a x)
  with assms have "delimiter x" by simp
  from structural_passes_split [OF this, of a w] structural_passes_split [OF this, of a "[]"]
  show ?thesis by (simp add: snoc structural_passes_Nil)
qed

lemma structural_passes_before:
  assumes "post = [] \<or> delimiter (hd post)"
  shows "structural_passes (w @ post) = structural_passes w @ structural_passes post"
proof (cases post)
  case Nil
  then show ?thesis by (simp add: structural_passes_Nil)
next
  case (Cons y b)
  with assms have "delimiter y" by simp
  from structural_passes_split [OF this, of w b] structural_passes_split [OF this, of "[]" b]
  show ?thesis by (simp add: Cons structural_passes_Nil)
qed

text \<open>A code unit at the head of the text that is no letter or digit stays at the head.\<close>

lemma structural_passes_head:
  assumes "\<not> alnum y"
  shows "\<exists>t. structural_passes (y # b) = y # t"
proof -
  have 1: "\<not> tri latin 95 (y # s)" "\<not> tri alnum 94 (y # s)" "\<not> frac_head (y # s)" for s
    using assms by (auto simp: tri_shape frac_head_def latin_def alnum_def)
  have "replace False subscript_rx subscript_to (y # s) =
      y # replace_from False subscript_rx subscript_to (Some y) s" for s
    unfolding replace_def by (rule brace_copy [where A = latin and b = 95]) (simp_all add: 1)
  moreover have "replace False superscript_rx superscript_to (y # s) =
      y # replace_from False superscript_rx superscript_to (Some y) s" for s
    unfolding replace_def by (rule brace_copy [where A = alnum and b = 94]) (simp_all add: 1)
  moreover have "replace False fraction_rx fraction_to (y # s) =
      y # replace_from False fraction_rx fraction_to (Some y) s" for s
    unfolding replace_def by (rule frac_copy) (rule 1)
  ultimately show ?thesis
    by (simp add: structural_passes_eq)
qed

lemma structural_passes_head_not_word:
  assumes "post = [] \<or> \<not> word_char (hd post)"
  shows "structural_passes post = [] \<or> \<not> word_char (hd (structural_passes post))"
proof (cases post)
  case Nil
  then show ?thesis by (simp add: structural_passes_Nil)
next
  case (Cons y b)
  with assms have y: "\<not> word_char y" by simp
  then have "\<not> alnum y" by (auto simp: alnum_def word_char_def)
  from structural_passes_head [OF this, of b] y show ?thesis
    by (auto simp: Cons)
qed

lemma letters_unchanged:
  assumes "\<forall>x \<in> set v. latin x"
  shows "structural_passes v = v"
proof -
  have "\<not> latin 95" "\<not> latin 94" "\<not> latin 47"
    by (simp_all add: latin_def char_defs)
  with assms have "95 \<notin> set v" "94 \<notin> set v" "47 \<notin> set v" by blast+
  then show ?thesis by (rule structural_passes_unchanged)
qed

subsection \<open>The Greek-letter pass around a delimiter\<close>

lemma greek_pass_after:
  assumes "pre = [] \<or> (\<not> word_char (last pre) \<and> \<not> greek_glyph (last pre))"
  shows "greek_pass (pre @ w) = greek_pass pre @ greek_pass w"
proof (cases pre rule: rev_cases)
  case Nil
  then show ?thesis by (simp add: greek_pass_Nil)
next
  case (snoc a x)
  with assms have x: "\<not> word_char x" "\<not> greek_glyph x" by simp_all
  from greek_pass_split [OF x, of a w] greek_pass_split [OF x, of a "[]"]
  show ?thesis by (simp add: snoc greek_pass_Nil)
qed

subsection \<open>The Maxwell block around a command\<close>

lemma skip_then_member: "skip_then P c s = Some r \<Longrightarrow> c \<in> set s"
proof -
  assume "skip_then P c s = Some r"
  then have "dropWhile P s = c # r"
    by (auto simp: skip_then_def split: list.splits if_splits)
  then have "c \<in> set (dropWhile P s)" by simp
  then show ?thesis by (rule set_dropWhileD)
qed

lemma nabla_match_field: "nabla_match oper field s = Some r \<Longrightarrow> field \<in> set s"
proof (cases s)
  case Nil
  assume "nabla_match oper field s = Some r"
  with Nil show ?thesis by (simp add: nabla_match_def)
next
  case (Cons x t)
  assume "nabla_match oper field s = Some r"
  then obtain r1 where "skip_then white_space oper t = Some r1" "skip_then white_space field r1 = Some r"
    by (auto simp: Cons nabla_match_def bind_eq_Some_conv split: if_splits)
  then have "field \<in> set r1" "suffix r1 t"
    by (auto dest: skip_then_member skip_then_suffix)
  then show ?thesis
    by (auto simp: Cons dest: set_mono_suffix)
qed

lemma pass_no_field:
  assumes "\<not> white_space oper" and "\<not> white_space field" and "field \<notin> set s"
  shows "replace False (nabla_rx oper field) t s = s"
proof (rule replace_no_match)
  fix p' s' assume "suffix s' s"
  then have "field \<notin> set s'" using assms(3) by (auto dest: set_mono_suffix)
  then have "nabla_match oper field s' = None"
    by (cases "nabla_match oper field s'") (auto dest: nabla_match_field)
  then show "match_at False (nabla_rx oper field) p' s' = None"
    by (simp add: match_at_nabla_rx [OF assms(1,2)])
qed

lemma pass_without_nabla:
  assumes "\<not> white_space oper" and "\<not> white_space field" and "8711 \<notin> set s"
  shows "replace False (nabla_rx oper field) t s = s"
  using pass_no_nabla [OF assms, of t "[]"] by (simp add: pass_Nil [OF assms(1,2)])

text \<open>Without its trigger the block would not rewrite anything: the guard can be left out.\<close>

lemma maxwell_block_rewrites: "maxwell_block s = maxwell_rewrites s"
proof (cases "maxwell_guard s")
  case True
  then show ?thesis by (simp add: maxwell_block_def)
next
  case False
  then consider "8711 \<notin> set s" | "69 \<notin> set s" "66 \<notin> set s"
    by (auto simp: maxwell_guard_def)
  then have "maxwell_rewrites s = s"
  proof cases
    case 1
    then show ?thesis
      unfolding maxwell_rewrites_eq by (simp add: pass_without_nabla not_white_space)
  next
    case 2
    then show ?thesis
      unfolding maxwell_rewrites_eq by (simp add: pass_no_field not_white_space)
  qed
  with False show ?thesis by (simp add: maxwell_block_def)
qed

lemma maxwell_rewrites_over_command:
  assumes "8711 \<notin> set m"
  shows "maxwell_rewrites (x @ 92 # m @ y) = maxwell_rewrites x @ 92 # m @ maxwell_rewrites y"
proof -
  have "replace False (nabla_rx o' f') t (x' @ (92 # m) @ y') =
      replace False (nabla_rx o' f') t x' @ (92 # m) @ replace False (nabla_rx o' f') t y'"
    if "o' = 46 \<or> o' = 215" "f' = 69 \<or> f' = 66" for o' f' t x' y'
    using that not_white_space assms by (intro pass_over_text [where m' = m]) auto
  then show ?thesis
    unfolding maxwell_rewrites_eq by simp
qed

subsection \<open>The rewriter around a name or a glyph\<close>

lemma processToLatex_passes: "processToLatex s = maxwell_rewrites (greek_pass (structural_passes s))"
  by (simp add: processToLatex_live maxwell_block_rewrites)

lemma name_no_nabla: "(n, g) \<in> set greekLetters \<Longrightarrow> 8711 \<notin> set (asc n)"
  using table_names [of n g] by (auto simp: lower_latin_def)

lemma processToLatex_name:
  assumes "(n, g) \<in> set greekLetters" and "case_variant v (asc n)"
    and "pre = [] \<or> (delimiter (last pre) \<and> \<not> greek_glyph (last pre))"
    and "post = [] \<or> delimiter (hd post)"
  shows "processToLatex (pre @ v @ post) = processToLatex pre @ 92 # asc n @ processToLatex post"
proof -
  have cv: "map canonicalize v = map canonicalize (asc n)"
    using assms(2) table_lower [OF assms(1)] by (rule case_variant_canonicalize)
  then have lat: "\<forall>x \<in> set v. latin x"
    using table_latin [OF assms(1)] by (rule same_canonicalize_latin)
  let ?P = "structural_passes pre" and ?Q = "structural_passes post"
  have "structural_passes (pre @ v @ post) = ?P @ structural_passes (v @ post)"
    using assms(3) by (intro structural_passes_after) auto
  also have "structural_passes (v @ post) = structural_passes v @ ?Q"
    using assms(4) by (rule structural_passes_before)
  also have "structural_passes v = v"
    using lat by (rule letters_unchanged)
  finally have s: "structural_passes (pre @ v @ post) = ?P @ v @ ?Q" .
  have p: "?P = [] \<or> (\<not> word_char (last ?P) \<and> \<not> greek_glyph (last ?P))"
  proof (cases pre rule: rev_cases)
    case Nil
    then show ?thesis by (simp add: structural_passes_Nil)
  next
    case (snoc a x)
    with assms(3) have x: "delimiter x" "\<not> greek_glyph x" by simp_all
    from structural_passes_split [OF x(1), of a "[]"] x show ?thesis
      by (simp add: snoc structural_passes_Nil delimiter_def)
  qed
  have q: "?Q = [] \<or> \<not> word_char (hd ?Q)"
    using assms(4) by (intro structural_passes_head_not_word) (auto simp: delimiter_def)
  have "greek_pass (?P @ v @ ?Q) = greek_pass ?P @ greek_pass (v @ ?Q)"
    using p by (rule greek_pass_after)
  also have "greek_pass (v @ ?Q) = greek_pass v @ greek_pass ?Q"
    using q by (rule greek_pass_before)
  also have "greek_pass v = 92 # asc n"
    using assms(1) cv by (rule greek_pass_name)
  finally have "greek_pass (?P @ v @ ?Q) = greek_pass ?P @ 92 # asc n @ greek_pass ?Q" by simp
  then show ?thesis
    by (simp add: processToLatex_passes s maxwell_rewrites_over_command name_no_nabla [OF assms(1)])
qed

lemma glyph_delimiter:
  assumes "(n, g) \<in> set greekLetters" and "canonicalize c = canonicalize g"
  shows "delimiter c"
proof -
  have "\<not> word_char c" using assms by (rule table_glyph_not_word)
  moreover have "\<not> c < 128" using ascii_not_glyph [OF assms(1), of c] assms(2) by blast
  ultimately show ?thesis by (simp add: delimiter_def)
qed

lemma processToLatex_glyph:
  assumes "(n, g) \<in> set greekLetters" and "canonicalize c = canonicalize g"
    and "post = [] \<or> \<not> word_char (hd post)"
  shows "processToLatex (pre @ c # post) = processToLatex pre @ 92 # asc n @ processToLatex post"
proof -
  let ?P = "structural_passes pre" and ?Q = "structural_passes post"
  have c: "\<not> word_char c" using assms(1,2) by (rule table_glyph_not_word)
  have s: "structural_passes (pre @ c # post) = ?P @ c # ?Q"
    using glyph_delimiter [OF assms(1,2)] by (rule structural_passes_split)
  have q: "?Q = [] \<or> \<not> word_char (hd ?Q)"
    using assms(3) by (rule structural_passes_head_not_word)
  have "greek_pass (?P @ c # ?Q) = greek_pass ?P @ greek_pass (c # ?Q)"
    using c by (intro greek_pass_before) simp
  also have "greek_pass (c # ?Q) = greek_pass [c] @ greek_pass ?Q"
    using greek_pass_before [OF q, of "[c]"] by simp
  also have "greek_pass [c] = 92 # asc n"
    using assms(1,2) by (rule greek_pass_glyph)
  finally have "greek_pass (?P @ c # ?Q) = greek_pass ?P @ 92 # asc n @ greek_pass ?Q" by simp
  then show ?thesis
    by (simp add: processToLatex_passes s maxwell_rewrites_over_command name_no_nabla [OF assms(1)])
qed

lemma processToLatex_Nil: "processToLatex [] = []"
  by (simp add: processToLatex_passes structural_passes_Nil greek_pass_Nil maxwell_rewrites_eq
      pass_Nil not_white_space)

subsection \<open>One step of the pass on a name\<close>

text \<open>
  One step replaces the name of its entry wherever it stands as a word of its own, in
  any case, as lemma \<open>greek_step_glyph\<close> says of the glyph wherever it stands.
\<close>

lemma greek_step_name:
  assumes "(n, g) \<in> set greekLetters" and "map canonicalize v = map canonicalize (asc n)"
    and "pre = [] \<or> \<not> word_char (last pre)" and "post = [] \<or> \<not> word_char (hd post)"
  shows "greek_step (pre @ v @ post) (n, g) = greek_step pre (n, g) @ 92 # asc n @ greek_step post (n, g)"
proof -
  have e: "greek_step [] (n, g) = []" using table_names [OF assms(1)] by (simp add: greek_step_Nil)
  have r: "greek_step (v @ post) (n, g) = 92 # asc n @ greek_step post (n, g)"
    using greek_step_before [OF assms(1,4), of v] greek_step_own_word [OF assms(1,2)] by simp
  show ?thesis
  proof (cases pre rule: rev_cases)
    case Nil
    then show ?thesis by (simp add: r e)
  next
    case (snoc a x)
    with assms(3) have x: "\<not> word_char x" by simp
    show ?thesis
    proof (cases "canonicalize x = canonicalize g")
      case True
      from greek_step_glyph [OF assms(1) True, of a "v @ post"] greek_step_glyph [OF assms(1) True, of a "[]"]
      show ?thesis by (simp add: snoc r e)
    next
      case False
      from greek_step_split [OF assms(1) x False, of a "v @ post"] greek_step_split [OF assms(1) x False, of a "[]"]
      show ?thesis by (simp add: snoc r e)
    qed
  qed
qed

text \<open>
  Across the steps the code unit before a name must not be a glyph: in the text of the
  glyph of alpha and \<open>BETA\<close> the step of alpha writes its command first, and \<open>BETA\<close> is
  then no word of its own for the step of beta.
\<close>

lemma glyph_before_name: "processToLatex (945 # asc ''BETA'') = 92 # asc ''alphaBETA''"
  by (simp add: ev)

section \<open>The claims\<close>

subsection \<open>The field equation of the specification\<close>

lemma einstein_example:
  "processToLatex (asc ''G_'' @ munu @ asc '' + '' @ [923] @ asc ''g_'' @ munu @ asc '' = c^4/(8''
                   @ [960] @ asc ''G) T_'' @ munu)
   = asc ''G_'' @ 92 # asc ''mu'' @ 92 # asc ''nu + '' @ 92 # asc ''lambdag_'' @ 92 # asc ''mu''
     @ 92 # asc ''nu = c^{4}/(8'' @ 92 # asc ''piG) T_'' @ 92 # asc ''mu'' @ 92 # asc ''nu''"
  by (simp add: ev)

text \<open>
  C1. On a text with \<open>G\<close>, \<open>\<mu>\<nu>\<close> and capital lambda the Einstein block is meant to
  write \<open>G_{\mu\nu}\<close>, \<open>\Lambda g_{\mu\nu}\<close>, \<open>T_{\mu\nu}\<close> and \<open>8\pi G\<close>. The code
  does not: on the field equation \<open>G_\<mu>\<nu> + \<Lambda>g_\<mu>\<nu> = c^4/(8\<pi>G) T_\<mu>\<nu>\<close> the
  Greek-letter pass has already rewritten every glyph, the block does not run, and the
  output contains none of the four texts.
\<close>

theorem C1_einstein_example_not_normalised:
  "(let input = asc ''G_'' @ munu @ asc '' + '' @ [923] @ asc ''g_'' @ munu @ asc '' = c^4/(8''
                @ [960] @ asc ''G) T_'' @ munu;
        output = processToLatex input
    in includes_js input [71] \<and> includes_js input munu \<and> includes_js input [923] \<and>
       includes_js input [84] \<and> includes_js input [56, 960, 71] \<and>
       output = asc ''G_'' @ 92 # asc ''mu'' @ 92 # asc ''nu + '' @ 92 # asc ''lambdag_'' @ 92 # asc ''mu''
                @ 92 # asc ''nu = c^{4}/(8'' @ 92 # asc ''piG) T_'' @ 92 # asc ''mu'' @ 92 # asc ''nu'' \<and>
       \<not> includes_js output (asc ''G_{'' @ 92 # asc ''mu'' @ 92 # asc ''nu}'') \<and>
       \<not> includes_js output (92 # asc ''Lambda g_{'' @ 92 # asc ''mu'' @ 92 # asc ''nu}'') \<and>
       \<not> includes_js output (asc ''T_{'' @ 92 # asc ''mu'' @ 92 # asc ''nu}'') \<and>
       \<not> includes_js output (asc ''8'' @ 92 # asc ''pi G''))"
  unfolding Let_def einstein_example
  by (simp add: asc_def munu_def includes_js_def sublist_Cons_right)

text \<open>
  C2. The guards of the Einstein and of the Schr\<open>o\<close>dinger block never hold: whatever
  the text, after the Greek-letter pass it contains no \<open>\<mu>\<nu>\<close>, no capital lambda and
  no capital psi, so both blocks leave the text as it is and the rewriter is the three
  structural passes, the Greek-letter pass and the Maxwell block.
\<close>

theorem C2_equation_blocks_dead:
  "\<not> includes_js (greek_pass t) munu \<and>
   \<not> includes_js (greek_pass t) [923] \<and>
   \<not> includes_js (greek_pass t) [936] \<and>
   \<not> einstein_guard (greek_pass t) \<and>
   einstein_block (greek_pass t) = greek_pass t \<and>
   \<not> schrodinger_guard (einstein_block (greek_pass t)) \<and>
   schrodinger_block (einstein_block (greek_pass t)) = einstein_block (greek_pass t) \<and>
   processToLatex s = maxwell_block (greek_pass (structural_passes s))"
  using greek_pass_no_Lambda [of t] greek_pass_no_mu [of t] greek_pass_no_Psi [of t]
  by (auto simp: processToLatex_def einstein_block_greek_pass schrodinger_block_greek_pass
      einstein_guard_greek_pass schrodinger_guard_greek_pass munu_def dest: includes_js_set)

text \<open>
  C3 fails as stated: on \<open>\<nabla>.E\<close> the shared rewriter writes the divergence and the
  inlined copy leaves the text as it is.
\<close>

theorem C3_counterexample: "processToLatex [8711, 46, 69] \<noteq> processInput [8711, 46, 69]"
  by (simp add: ev)

text \<open>
  C3, as amended. The two rewriters do not compute the same function: the inlined copy
  stops after the Einstein block. \<open>processToLatex\<close> is \<open>processInput\<close> followed by
  the Maxwell block, and the two return identical output for every input that
  contains no nabla.
\<close>

theorem C3_rewriters_differ_by_maxwell_block:
  "processToLatex s = maxwell_block (processInput s) \<and>
   (\<not> includes_js s [8711] \<longrightarrow> processToLatex s = processInput s)"
proof -
  have "maxwell_block (processInput s) = processInput s" if "8711 \<notin> set s"
  proof -
    have "\<forall>c \<in> set (processInput s). c \<noteq> 8711"
      using that by (intro processInput_preserves) auto
    then have "\<not> maxwell_guard (processInput s)"
      by (auto simp: maxwell_guard_def)
    then show ?thesis by (simp add: maxwell_block_def)
  qed
  then show ?thesis
    by (simp add: processToLatex_live processInput_live)
qed

theorem C3_witness:
  "\<not> includes_js (asc ''x_1'') [8711] \<and> processToLatex (asc ''x_1'') = processInput (asc ''x_1'')"
  using C3_rewriters_differ_by_maxwell_block [of "asc ''x_1''", THEN conjunct2] by (simp add: asc_def)

subsection \<open>The Greek names and their command forms\<close>

lemma name_alpha: "processToLatex (asc ''alpha'') = 92 # asc ''alpha''"
  by (simp add: ev)

lemma command_alpha: "processToLatex (92 # asc ''alpha'') = 92 # 92 # asc ''alpha''"
  by (simp add: ev)

lemma name_beta: "processToLatex (asc ''beta'') = 92 # asc ''beta''"
  by (simp add: ev)

lemma command_beta: "processToLatex (92 # asc ''beta'') = 92 # 92 # asc ''beta''"
  by (simp add: ev)

lemma name_gamma: "processToLatex (asc ''gamma'') = 92 # asc ''gamma''"
  by (simp add: ev)

lemma command_gamma: "processToLatex (92 # asc ''gamma'') = 92 # 92 # asc ''gamma''"
  by (simp add: ev)

lemma name_delta: "processToLatex (asc ''delta'') = 92 # asc ''delta''"
  by (simp add: ev)

lemma command_delta: "processToLatex (92 # asc ''delta'') = 92 # 92 # asc ''delta''"
  by (simp add: ev)

lemma name_epsilon: "processToLatex (asc ''epsilon'') = 92 # asc ''epsilon''"
  by (simp add: ev)

lemma command_epsilon: "processToLatex (92 # asc ''epsilon'') = 92 # 92 # asc ''epsilon''"
  by (simp add: ev)

lemma name_zeta: "processToLatex (asc ''zeta'') = 92 # asc ''zeta''"
  by (simp add: ev)

lemma command_zeta: "processToLatex (92 # asc ''zeta'') = 92 # 92 # asc ''zeta''"
  by (simp add: ev)

lemma name_eta: "processToLatex (asc ''eta'') = 92 # asc ''eta''"
  by (simp add: ev)

lemma command_eta: "processToLatex (92 # asc ''eta'') = 92 # 92 # asc ''eta''"
  by (simp add: ev)

lemma name_theta: "processToLatex (asc ''theta'') = 92 # asc ''theta''"
  by (simp add: ev)

lemma command_theta: "processToLatex (92 # asc ''theta'') = 92 # 92 # asc ''theta''"
  by (simp add: ev)

lemma name_iota: "processToLatex (asc ''iota'') = 92 # asc ''iota''"
  by (simp add: ev)

lemma command_iota: "processToLatex (92 # asc ''iota'') = 92 # 92 # asc ''iota''"
  by (simp add: ev)

lemma name_kappa: "processToLatex (asc ''kappa'') = 92 # asc ''kappa''"
  by (simp add: ev)

lemma command_kappa: "processToLatex (92 # asc ''kappa'') = 92 # 92 # asc ''kappa''"
  by (simp add: ev)

lemma name_lambda: "processToLatex (asc ''lambda'') = 92 # asc ''lambda''"
  by (simp add: ev)

lemma command_lambda: "processToLatex (92 # asc ''lambda'') = 92 # 92 # asc ''lambda''"
  by (simp add: ev)

lemma name_mu: "processToLatex (asc ''mu'') = 92 # asc ''mu''"
  by (simp add: ev)

lemma command_mu: "processToLatex (92 # asc ''mu'') = 92 # 92 # asc ''mu''"
  by (simp add: ev)

lemma name_nu: "processToLatex (asc ''nu'') = 92 # asc ''nu''"
  by (simp add: ev)

lemma command_nu: "processToLatex (92 # asc ''nu'') = 92 # 92 # asc ''nu''"
  by (simp add: ev)

lemma name_xi: "processToLatex (asc ''xi'') = 92 # asc ''xi''"
  by (simp add: ev)

lemma command_xi: "processToLatex (92 # asc ''xi'') = 92 # 92 # asc ''xi''"
  by (simp add: ev)

lemma name_omicron: "processToLatex (asc ''omicron'') = 92 # asc ''omicron''"
  by (simp add: ev)

lemma command_omicron: "processToLatex (92 # asc ''omicron'') = 92 # 92 # asc ''omicron''"
  by (simp add: ev)

lemma name_pi: "processToLatex (asc ''pi'') = 92 # asc ''pi''"
  by (simp add: ev)

lemma command_pi: "processToLatex (92 # asc ''pi'') = 92 # 92 # asc ''pi''"
  by (simp add: ev)

lemma name_rho: "processToLatex (asc ''rho'') = 92 # asc ''rho''"
  by (simp add: ev)

lemma command_rho: "processToLatex (92 # asc ''rho'') = 92 # 92 # asc ''rho''"
  by (simp add: ev)

lemma name_sigma: "processToLatex (asc ''sigma'') = 92 # asc ''sigma''"
  by (simp add: ev)

lemma command_sigma: "processToLatex (92 # asc ''sigma'') = 92 # 92 # asc ''sigma''"
  by (simp add: ev)

lemma name_tau: "processToLatex (asc ''tau'') = 92 # asc ''tau''"
  by (simp add: ev)

lemma command_tau: "processToLatex (92 # asc ''tau'') = 92 # 92 # asc ''tau''"
  by (simp add: ev)

lemma name_upsilon: "processToLatex (asc ''upsilon'') = 92 # asc ''upsilon''"
  by (simp add: ev)

lemma command_upsilon: "processToLatex (92 # asc ''upsilon'') = 92 # 92 # asc ''upsilon''"
  by (simp add: ev)

lemma name_phi: "processToLatex (asc ''phi'') = 92 # asc ''phi''"
  by (simp add: ev)

lemma command_phi: "processToLatex (92 # asc ''phi'') = 92 # 92 # asc ''phi''"
  by (simp add: ev)

lemma name_chi: "processToLatex (asc ''chi'') = 92 # asc ''chi''"
  by (simp add: ev)

lemma command_chi: "processToLatex (92 # asc ''chi'') = 92 # 92 # asc ''chi''"
  by (simp add: ev)

lemma name_psi: "processToLatex (asc ''psi'') = 92 # asc ''psi''"
  by (simp add: ev)

lemma command_psi: "processToLatex (92 # asc ''psi'') = 92 # 92 # asc ''psi''"
  by (simp add: ev)

lemma name_omega: "processToLatex (asc ''omega'') = 92 # asc ''omega''"
  by (simp add: ev)

lemma command_omega: "processToLatex (92 # asc ''omega'') = 92 # 92 # asc ''omega''"
  by (simp add: ev)

lemmas name_evals = name_alpha name_beta name_gamma name_delta name_epsilon name_zeta name_eta name_theta name_iota name_kappa name_lambda name_mu name_nu name_xi name_omicron name_pi name_rho name_sigma name_tau name_upsilon name_phi name_chi name_psi name_omega

lemmas command_evals = command_alpha command_beta command_gamma command_delta command_epsilon command_zeta command_eta command_theta command_iota command_kappa command_lambda command_mu command_nu command_xi command_omicron command_pi command_rho command_sigma command_tau command_upsilon command_phi command_chi command_psi command_omega

text \<open>
  C4 fails as stated: the command form is not a fixed point. Between the backslash and
  the name there is a word boundary, so the name pattern matches again and a second
  backslash is written.
\<close>

theorem C4_counterexample:
  "processToLatex (processToLatex (asc ''delta'')) \<noteq> processToLatex (asc ''delta'')"
  by (simp add: name_delta command_delta)

text \<open>
  C4, as amended. For every name \<open>n\<close> of the table the rewriter maps \<open>n\<close> to the command
  \<open>\n\<close>, and maps the command \<open>\n\<close> to \<open>\\n\<close>: applying the rewriter to its own output
  adds a backslash.
\<close>

theorem C4_command_forms_gain_backslash:
  "\<forall>(n, g) \<in> set greekLetters.
     processToLatex (asc n) = 92 # asc n \<and> processToLatex (92 # asc n) = 92 # 92 # asc n"
  by (simp add: greekLetters_def name_evals command_evals)

theorem C4_witness:
  "(''delta'', 948) \<in> set greekLetters \<and>
   processToLatex (asc ''delta'') = 92 # asc ''delta'' \<and>
   processToLatex (92 # asc ''delta'') = 92 # 92 # asc ''delta''"
proof -
  have m: "(''delta'', 948) \<in> set greekLetters"
    by (simp add: greekLetters_def)
  from C4_command_forms_gain_backslash [THEN bspec, OF m] m show ?thesis
    by simp
qed

text \<open>
  C5. On a text with no Greek letter name, no Greek glyph and no trigger of an equation
  block the rewriter is idempotent. The structural passes are idempotent on every text:
  after them no subscript, superscript or fraction pattern matches anywhere, the braces
  and the backslash being outside the character classes.
\<close>

theorem C5_idempotent_without_greek_or_triggers:
  "(\<not> has_greek_name s \<and> \<not> has_greek_glyph s \<and> \<not> has_trigger s \<longrightarrow>
      processToLatex (processToLatex s) = processToLatex s) \<and>
   structural_passes (structural_passes u) = structural_passes u"
proof (intro conjI impI)
  assume h: "\<not> has_greek_name s \<and> \<not> has_greek_glyph s \<and> \<not> has_trigger s"
  let ?t = "structural_passes s"
  have g: "greek_pass ?t = ?t"
    using h by (intro greek_pass_unchanged structural_passes_names structural_passes_glyphs) auto
  have "\<not> maxwell_guard ?t"
    using h by (intro structural_passes_maxwell_guard) (simp add: has_trigger_def)
  then have m: "maxwell_block ?t = ?t"
    by (simp add: maxwell_block_def)
  have 1: "processToLatex s = ?t"
    by (simp add: processToLatex_live g m)
  have "processToLatex ?t = ?t"
    by (simp add: processToLatex_live structural_passes_idem g m)
  with 1 show "processToLatex (processToLatex s) = processToLatex s" by simp
next
  show "structural_passes (structural_passes u) = structural_passes u"
    by (rule structural_passes_idem)
qed

theorem C5_witness:
  "\<not> has_greek_name (asc ''x_1 + y^2 + a/b'') \<and> \<not> has_greek_glyph (asc ''x_1 + y^2 + a/b'') \<and>
   \<not> has_trigger (asc ''x_1 + y^2 + a/b'') \<and>
   processToLatex (asc ''x_1 + y^2 + a/b'') = asc ''x_{1} + y^{2} + '' @ 92 # asc ''frac{a}{b}'' \<and>
   processToLatex (processToLatex (asc ''x_1 + y^2 + a/b'')) = processToLatex (asc ''x_1 + y^2 + a/b'')"
proof -
  let ?s = "asc ''x_1 + y^2 + a/b''"
  have n: "\<not> has_greek_name ?s"
    by (simp add: has_greek_name_def greekLetters_def includes_ci_def asc_def char_defs sublist_Cons_right)
  have g: "\<not> has_greek_glyph ?s"
    by (simp add: has_greek_glyph_def greekLetters_def asc_def char_defs)
  have t: "\<not> has_trigger ?s"
    by (simp add: asc_def has_trigger_def einstein_guard_def schrodinger_guard_def maxwell_guard_def)
  have e: "processToLatex ?s = asc ''x_{1} + y^{2} + '' @ 92 # asc ''frac{a}{b}''"
    by (simp add: ev)
  from C5_idempotent_without_greek_or_triggers [of ?s, THEN conjunct1] n g t
  have "processToLatex (processToLatex ?s) = processToLatex ?s" by blast
  with n g t e show ?thesis by blast
qed

text \<open>
  C6. A text with no underscore, no caret, no slash, no Greek letter name, no Greek glyph
  and no trigger of an equation block is returned unchanged; the empty text is one.
\<close>

theorem C6_identity_without_triggers:
  assumes "95 \<notin> set s" and "94 \<notin> set s" and "47 \<notin> set s"
    and "\<not> has_greek_name s" and "\<not> has_greek_glyph s" and "\<not> has_trigger s"
  shows "processToLatex s = s"
  using assms
  by (simp add: processToLatex_eq structural_passes_unchanged greek_pass_unchanged blocks_unchanged)


theorem C6_witness:
  "95 \<notin> set (asc ''plain text'') \<and> 94 \<notin> set (asc ''plain text'') \<and> 47 \<notin> set (asc ''plain text'') \<and>
   \<not> has_greek_name (asc ''plain text'') \<and> \<not> has_greek_glyph (asc ''plain text'') \<and>
   \<not> has_trigger (asc ''plain text'') \<and> processToLatex (asc ''plain text'') = asc ''plain text'' \<and>
   processToLatex [] = []"
proof -
  have h: "95 \<notin> set (asc ''plain text'')" "94 \<notin> set (asc ''plain text'')" "47 \<notin> set (asc ''plain text'')"
    by (simp_all add: asc_def)
  have t: "\<not> has_trigger (asc ''plain text'')"
    by (simp add: asc_def has_trigger_def einstein_guard_def schrodinger_guard_def maxwell_guard_def)
  have n: "\<not> has_greek_name (asc ''plain text'')"
    by (simp add: has_greek_name_def greekLetters_def includes_ci_def asc_def char_defs sublist_Cons_right)
  have g: "\<not> has_greek_glyph (asc ''plain text'')"
    by (simp add: has_greek_glyph_def greekLetters_def asc_def char_defs)
  have e: "95 \<notin> set []" "94 \<notin> set []" "47 \<notin> set []" "\<not> has_greek_name []" "\<not> has_greek_glyph []"
    "\<not> has_trigger []"
    by (simp_all add: has_greek_name_def has_greek_glyph_def has_trigger_def greekLetters_def
        includes_ci_def asc_def einstein_guard_def schrodinger_guard_def maxwell_guard_def
        includes_js_def munu_def)
  from C6_identity_without_triggers [OF h n g t] C6_identity_without_triggers [OF e] h n g t
  show ?thesis by simp
qed

text \<open>
  C7 fails as stated: \<open>.\<close> does not match a line terminator, so the tokens in the right
  order with a line feed between the first \<open>G\<close> and \<open>\<mu>\<nu>\<close> are not detected.
\<close>

theorem C7_counterexample:
  "\<not> isEinsteinEquation (detectPatterns ([71, 10] @ munu @ [923, 103] @ munu @ [84] @ munu))"
  by (simp add: ev)

text \<open>
  C7, as amended. The detector reports the Einstein equation for every input in which
  \<open>G\<close>, \<open>\<mu>\<nu>\<close>, capital lambda, \<open>g\<close>, \<open>\<mu>\<nu>\<close>, \<open>T\<close>, \<open>\<mu>\<nu>\<close> stand in that order with no line
  terminator between the first and the last of them; whatever stands before and behind
  is free. It does so on \<open>G \<mu>\<nu> \<Lambda> g \<mu>\<nu> T \<mu>\<nu>\<close>, and does not when capital lambda is
  moved in front of \<open>G\<close>.
\<close>

theorem C7_einstein_chain_on_one_line:
  "((\<forall>x \<in> set (a @ b @ c @ d @ e @ f). \<not> line_terminator x) \<longrightarrow>
      isEinsteinEquation (detectPatterns
        (pre @ 71 # a @ munu @ b @ 923 # c @ 103 # d @ munu @ e @ 84 # f @ munu @ post))) \<and>
   isEinsteinEquation (detectPatterns
     (71 # 32 # munu @ 32 # 923 # 32 # 103 # 32 # munu @ 32 # 84 # 32 # munu)) \<and>
   \<not> isEinsteinEquation (detectPatterns
     (923 # 32 # 71 # 32 # munu @ 32 # 103 # 32 # munu @ 32 # 84 # 32 # munu))"
proof (intro conjI impI)
  assume lt: "\<forall>x \<in> set (a @ b @ c @ d @ e @ f). \<not> line_terminator x"
  let ?s6 = "munu @ post"
  let ?s5 = "84 # f @ ?s6"
  let ?s4 = "munu @ e @ ?s5"
  let ?s3 = "103 # d @ ?s4"
  let ?s2 = "923 # c @ ?s3"
  let ?s1 = "munu @ b @ ?s2"
  have "reaches einstein_rx False (71 # a @ ?s1) post"
    unfolding einstein_rx_def seqs.simps
    using lt
    by (intro reaches_Seq [OF reaches_Lit] reaches_Seq [OF reaches_str]
        reaches_Seq [OF reaches_Star_Dot] reaches_str) simp_all
  then have "test False einstein_rx (pre @ 71 # a @ ?s1)"
    by (rule test_reaches)
  then show "isEinsteinEquation (detectPatterns
       (pre @ 71 # a @ munu @ b @ 923 # c @ 103 # d @ munu @ e @ 84 # f @ munu @ post))"
    by (simp add: detectPatterns_def)
next
  show "isEinsteinEquation (detectPatterns
     (71 # 32 # munu @ 32 # 923 # 32 # 103 # 32 # munu @ 32 # 84 # 32 # munu))"
    by (simp add: ev)
next
  show "\<not> isEinsteinEquation (detectPatterns
     (923 # 32 # 71 # 32 # munu @ 32 # 103 # 32 # munu @ 32 # 84 # 32 # munu))"
    by (simp add: ev)
qed

theorem C7_witness:
  "\<not> line_terminator 32 \<and> \<not> line_terminator 43 \<and>
   isEinsteinEquation (detectPatterns
     (asc ''R = '' @ 71 # 32 # munu @ 32 # 43 # 32 # 923 # 103 # 32 # munu @ 32 # 84 # munu @ [10, 120]))"
  using C7_einstein_chain_on_one_line
    [of "[32]" "[32, 43, 32]" "[]" "[32]" "[32]" "[]" "asc ''R = ''" "[10, 120]", THEN conjunct1]
  by (simp add: line_terminator_def)

text \<open>
  C8 fails as stated: the block sees the text the earlier passes have left. In \<open>\<nabla>.E/2\<close>
  the fraction pass has already taken the \<open>E\<close> into a \<open>\frac\<close>, and the divergence
  that stands in the input is not rewritten.
\<close>

theorem C8_counterexample:
  "(let input = [8711, 46, 69, 47, 50]
    in includes_js input [8711] \<and> includes_js input [69] \<and> includes_js input [8711, 46, 69] \<and>
       processToLatex input = [8711, 46] @ 92 # asc ''frac{E}{2}'' \<and>
       \<not> includes_js (processToLatex input)
           (92 # asc ''nabla '' @ 92 # asc ''cdot '' @ 92 # asc ''vec{E}''))"
  unfolding Let_def by (simp add: ev)

text \<open>
  C8, as amended. Whenever the text that the structural passes and the Greek-letter pass
  leave contains an occurrence of nabla, optional white space, \<open>.\<close> or the
  multiplication sign, optional white space, and \<open>E\<close> or \<open>B\<close>, the rewriter replaces that
  occurrence by \<open>\nabla \cdot \vec{E}\<close>, \<open>\nabla \cdot \vec{B}\<close>, \<open>\nabla \times \vec{E}\<close> or
  \<open>\nabla \times \vec{B}\<close> respectively, and rewrites the text before it and the text
  behind it in the same way.
\<close>

theorem C8_maxwell_occurrences_rewritten:
  assumes "greek_pass (structural_passes s) = u @ 8711 # w1 @ oper # w2 @ field # v"
    and "\<forall>x \<in> set (w1 @ w2). white_space x"
    and "(oper, name) \<in> {(46, ''cdot''), (215, ''times'')}"
    and "(field, letter) \<in> {(69, ''E''), (66, ''B'')}"
  shows "processToLatex s =
           maxwell_rewrites u
           @ 92 # asc ''nabla '' @ 92 # asc name @ 32 # 92 # asc ''vec{'' @ asc letter @ asc ''}''
           @ maxwell_rewrites v"
proof -
  let ?t = "greek_pass (structural_passes s)"
  have "8711 \<in> set ?t" "69 \<in> set ?t \<or> 66 \<in> set ?t"
    using assms(4) by (auto simp: assms(1))
  then have "maxwell_guard ?t"
    by (simp add: maxwell_guard_def)
  then have "processToLatex s = maxwell_rewrites ?t"
    by (simp add: processToLatex_live maxwell_block_def)
  also have "?t = u @ (8711 # w1 @ oper # w2 @ [field]) @ v"
    by (simp add: assms(1))
  also have "maxwell_rewrites \<dots> = maxwell_rewrites u @ expand (vec_to name letter) [] @ maxwell_rewrites v"
    using assms(2) by (intro maxwell_rewrites_occurrence assms(3,4)) auto
  finally show ?thesis
    by (simp add: expand_vec_to)
qed

theorem C8_witness:
  "greek_pass (structural_passes [8711, 32, 215, 32, 66]) = [] @ 8711 # [32] @ 215 # [32] @ 66 # [] \<and>
   white_space 32 \<and>
   processToLatex [8711, 32, 215, 32, 66] =
     92 # asc ''nabla '' @ 92 # asc ''times'' @ 32 # 92 # asc ''vec{'' @ asc ''B'' @ asc ''}''"
proof -
  have t: "greek_pass (structural_passes [8711, 32, 215, 32, 66]) = [] @ 8711 # [32] @ 215 # [32] @ 66 # []"
    by (simp add: ev)
  have w: "\<forall>x \<in> set ([32] @ [32]). white_space x"
    by (simp add: white_space_def)
  have e: "maxwell_rewrites [] = []"
    by (simp add: ev)
  from C8_maxwell_occurrences_rewritten [OF t w, of "''times''" "''B''"] t w show ?thesis
    by (simp add: e)
qed

text \<open>
  C9. For every entry of the table, the name in any mix of upper and lower case, and
  every code unit that the glyph pattern matches without regard to case (the glyph and
  its capital among them), is rewritten to the backslash and the lower-case name. This
  holds of the name or the glyph as the whole text, and within a text: a name between
  delimiters or at an end of the text, and a glyph that no word character follows,
  become the command, and the text before and the text behind are rewritten as they are
  on their own.
\<close>

theorem C9_names_and_glyphs_become_commands:
  assumes "(name, symbol) \<in> set greekLetters"
  shows "(case_variant v (asc name) \<longrightarrow> processToLatex v = 92 # asc name) \<and>
         (canonicalize c = canonicalize symbol \<longrightarrow> processToLatex [c] = 92 # asc name) \<and>
         (case_variant v (asc name) \<and>
          (pre = [] \<or> (delimiter (last pre) \<and> \<not> greek_glyph (last pre))) \<and>
          (post = [] \<or> delimiter (hd post)) \<longrightarrow>
            processToLatex (pre @ v @ post) = processToLatex pre @ 92 # asc name @ processToLatex post) \<and>
         (canonicalize c = canonicalize symbol \<and> (post = [] \<or> \<not> word_char (hd post)) \<longrightarrow>
            processToLatex (pre @ c # post) = processToLatex pre @ 92 # asc name @ processToLatex post)"
proof (intro conjI impI)
  assume "case_variant v (asc name)"
  from processToLatex_name [OF assms this, of "[]" "[]"]
  show "processToLatex v = 92 # asc name"
    by (simp add: processToLatex_Nil)
next
  assume "canonicalize c = canonicalize symbol"
  from processToLatex_glyph [OF assms this, of "[]" "[]"]
  show "processToLatex [c] = 92 # asc name"
    by (simp add: processToLatex_Nil)
next
  assume "case_variant v (asc name) \<and>
          (pre = [] \<or> (delimiter (last pre) \<and> \<not> greek_glyph (last pre))) \<and>
          (post = [] \<or> delimiter (hd post))"
  then show "processToLatex (pre @ v @ post) = processToLatex pre @ 92 # asc name @ processToLatex post"
    using assms by (intro processToLatex_name) simp_all
next
  assume "canonicalize c = canonicalize symbol \<and> (post = [] \<or> \<not> word_char (hd post))"
  then show "processToLatex (pre @ c # post) = processToLatex pre @ 92 # asc name @ processToLatex post"
    using assms by (intro processToLatex_glyph) simp_all
qed

theorem C9_witness:
  "(''alpha'', 945) \<in> set greekLetters \<and>
   case_variant (asc ''alpha'') (asc ''alpha'') \<and> processToLatex (asc ''alpha'') = 92 # asc ''alpha'' \<and>
   canonicalize 945 = canonicalize 945 \<and> processToLatex [945] = 92 # asc ''alpha'' \<and>
   case_variant (asc ''ALPHA'') (asc ''alpha'') \<and> processToLatex (asc ''ALPHA'') = 92 # asc ''alpha'' \<and>
   (''pi'', 960) \<in> set greekLetters \<and>
   case_variant (asc ''Pi'') (asc ''pi'') \<and> delimiter 32 \<and> \<not> greek_glyph 32 \<and>
   processToLatex (asc ''2 Pi r'') = asc ''2 '' @ 92 # asc ''pi r'' \<and>
   canonicalize 928 = canonicalize 960 \<and>
   processToLatex (asc ''2'' @ 928 # asc ''/3'') = asc ''2'' @ 92 # asc ''pi/3''"
proof -
  have a: "(''alpha'', 945) \<in> set greekLetters" and p: "(''pi'', 960) \<in> set greekLetters"
    by (simp_all add: greekLetters_def)
  have v: "case_variant (asc ''alpha'') (asc ''alpha'')" "case_variant (asc ''ALPHA'') (asc ''alpha'')"
    "case_variant (asc ''Pi'') (asc ''pi'')"
    by (simp_all add: case_variant_def asc_def)
  have d: "delimiter 32" "\<not> greek_glyph 32" "\<not> word_char 47"
    by (simp_all add: delimiter_def greek_glyph_def greekLetters_def canonicalize_def char_defs)
  have c: "canonicalize 928 = canonicalize 960"
    by (simp add: canonicalize_def char_defs)
  have e: "processToLatex (asc ''2 '') = asc ''2 ''" "processToLatex (asc '' r'') = asc '' r''"
    "processToLatex (asc ''2'') = asc ''2''" "processToLatex (asc ''/3'') = asc ''/3''"
    by (simp_all add: ev)
  note t = C9_names_and_glyphs_become_commands
  from t [OF a, of "asc ''alpha''", THEN conjunct1] v(1)
  have 1: "processToLatex (asc ''alpha'') = 92 # asc ''alpha''" by blast
  from t [OF a, of _ 945, THEN conjunct2, THEN conjunct1]
  have 2: "processToLatex [945] = 92 # asc ''alpha''" by blast
  from t [OF a, of "asc ''ALPHA''", THEN conjunct1] v(2)
  have 3: "processToLatex (asc ''ALPHA'') = 92 # asc ''alpha''" by blast
  from t [OF p, of "asc ''Pi''" _ "asc ''2 ''" "asc '' r''", THEN conjunct2, THEN conjunct2, THEN conjunct1]
    v(3) d(1,2)
  have "processToLatex (asc ''2 '' @ asc ''Pi'' @ asc '' r'') =
      processToLatex (asc ''2 '') @ 92 # asc ''pi'' @ processToLatex (asc '' r'')"
    by (simp add: asc_def)
  then have 4: "processToLatex (asc ''2 Pi r'') = asc ''2 '' @ 92 # asc ''pi r''"
    by (simp add: e) (simp add: asc_def)
  from t [OF p, of _ 928 "asc ''2''" "asc ''/3''", THEN conjunct2, THEN conjunct2, THEN conjunct2] c d(3)
  have "processToLatex (asc ''2'' @ 928 # asc ''/3'') =
      processToLatex (asc ''2'') @ 92 # asc ''pi'' @ processToLatex (asc ''/3'')"
    by (simp add: asc_def)
  then have 5: "processToLatex (asc ''2'' @ 928 # asc ''/3'') = asc ''2'' @ 92 # asc ''pi/3''"
    by (simp add: e) (simp add: asc_def)
  from a p v d(1,2) c 1 2 3 4 5 show ?thesis by simp
qed

subsection \<open>The capital glyphs\<close>

lemma capital_alpha: "processToLatex [913] = 92 # asc ''alpha''"
  by (simp add: ev)

lemma capital_beta: "processToLatex [914] = 92 # asc ''beta''"
  by (simp add: ev)

lemma capital_gamma: "processToLatex [915] = 92 # asc ''gamma''"
  by (simp add: ev)

lemma capital_delta: "processToLatex [916] = 92 # asc ''delta''"
  by (simp add: ev)

lemma capital_epsilon: "processToLatex [917] = 92 # asc ''epsilon''"
  by (simp add: ev)

lemma capital_zeta: "processToLatex [918] = 92 # asc ''zeta''"
  by (simp add: ev)

lemma capital_eta: "processToLatex [919] = 92 # asc ''eta''"
  by (simp add: ev)

lemma capital_theta: "processToLatex [920] = 92 # asc ''theta''"
  by (simp add: ev)

lemma capital_iota: "processToLatex [921] = 92 # asc ''iota''"
  by (simp add: ev)

lemma capital_kappa: "processToLatex [922] = 92 # asc ''kappa''"
  by (simp add: ev)

lemma capital_lambda: "processToLatex [923] = 92 # asc ''lambda''"
  by (simp add: ev)

lemma capital_mu: "processToLatex [924] = 92 # asc ''mu''"
  by (simp add: ev)

lemma capital_nu: "processToLatex [925] = 92 # asc ''nu''"
  by (simp add: ev)

lemma capital_xi: "processToLatex [926] = 92 # asc ''xi''"
  by (simp add: ev)

lemma capital_omicron: "processToLatex [927] = 92 # asc ''omicron''"
  by (simp add: ev)

lemma capital_pi: "processToLatex [928] = 92 # asc ''pi''"
  by (simp add: ev)

lemma capital_rho: "processToLatex [929] = 92 # asc ''rho''"
  by (simp add: ev)

lemma capital_sigma: "processToLatex [931] = 92 # asc ''sigma''"
  by (simp add: ev)

lemma capital_tau: "processToLatex [932] = 92 # asc ''tau''"
  by (simp add: ev)

lemma capital_upsilon: "processToLatex [933] = 92 # asc ''upsilon''"
  by (simp add: ev)

lemma capital_phi: "processToLatex [934] = 92 # asc ''phi''"
  by (simp add: ev)

lemma capital_chi: "processToLatex [935] = 92 # asc ''chi''"
  by (simp add: ev)

lemma capital_psi: "processToLatex [936] = 92 # asc ''psi''"
  by (simp add: ev)

lemma capital_omega: "processToLatex [937] = 92 # asc ''omega''"
  by (simp add: ev)

lemmas capital_evals = capital_alpha capital_beta capital_gamma capital_delta capital_epsilon capital_zeta capital_eta capital_theta capital_iota capital_kappa capital_lambda capital_mu capital_nu capital_xi capital_omicron capital_pi capital_rho capital_sigma capital_tau capital_upsilon capital_phi capital_chi capital_psi capital_omega

lemma canonicalize_capital:
  assumes "(n, g) \<in> set greekLetters"
  shows "canonicalize (g - 32) = canonicalize g"
  using table_glyphs [OF assms] by (auto simp: canonicalize_def lower_latin_def)

text \<open>
  C10. The capital glyphs are rewritten too: for every entry of the table, the capital
  of its glyph (32 code units below it) alone is rewritten to the lower-case command,
  and no output of the rewriter contains that capital.
\<close>

theorem C10_capital_glyphs_rewritten:
  "\<forall>(n, g) \<in> set greekLetters.
     processToLatex [g - 32] = 92 # asc n \<and> g - 32 \<notin> set (processToLatex s)"
proof -
  have "g - 32 \<notin> set (processToLatex s)" if m: "(n, g) \<in> set greekLetters" for n g
  proof -
    let ?t = "greek_pass (structural_passes s)"
    have "\<forall>c \<in> set ?t. canonicalize c \<noteq> canonicalize (g - 32)"
      using greek_pass_kills [OF m] canonicalize_capital [OF m] by simp
    moreover have "\<forall>c < 128. canonicalize c \<noteq> canonicalize (g - 32)"
      using canonicalize_ascii canonicalize_greek [of g] table_glyphs [OF m] canonicalize_capital [OF m]
      by fastforce
    ultimately have "\<forall>c \<in> set (maxwell_block ?t). canonicalize c \<noteq> canonicalize (g - 32)"
      by (rule maxwell_block_preserves)
    then show ?thesis by (auto simp: processToLatex_live)
  qed
  moreover have "\<forall>(n, g) \<in> set greekLetters. processToLatex [g - 32] = 92 # asc n"
    by (simp add: greekLetters_def capital_evals)
  ultimately show ?thesis by blast
qed

theorem C10_witness:
  "(''delta'', 948) \<in> set greekLetters \<and> processToLatex [916] = 92 # asc ''delta'' \<and>
   (''lambda'', 955) \<in> set greekLetters \<and> processToLatex [923] = 92 # asc ''lambda'' \<and>
   916 \<notin> set (processToLatex [120, 916])"
proof -
  have m: "(''delta'', 948) \<in> set greekLetters" "(''lambda'', 955) \<in> set greekLetters"
    by (simp_all add: greekLetters_def)
  from C10_capital_glyphs_rewritten [of "[120, 916]", THEN bspec, OF m(1)]
    C10_capital_glyphs_rewritten [of "[120, 916]", THEN bspec, OF m(2)] m
  show ?thesis by simp
qed

end
